theory Spec2Isabelle
  imports Main "HOL-Library.Sublist"
begin

section \<open>Python strings\<close>

text \<open>
  A Python \<open>str\<close> is a sequence of code points. The embedding covers the code points
  below 256: a \<open>string\<close> is read as that sequence, one \<open>char\<close> per code point. The
  character classes below are those of CPython on that range.
\<close>

definition ord :: "char \<Rightarrow> nat" where
  "ord c = of_char c"

text \<open>\<open>str.isspace\<close>, which is also the class \<open>\s\<close> of \<open>re\<close> on a \<open>str\<close> pattern.\<close>

definition isspace :: "char \<Rightarrow> bool" where
  "isspace c = ((9 \<le> ord c \<and> ord c \<le> 13) \<or> (28 \<le> ord c \<and> ord c \<le> 32)
     \<or> ord c = 133 \<or> ord c = 160)"

definition ascii_upper :: "char \<Rightarrow> bool" where
  "ascii_upper c = (65 \<le> ord c \<and> ord c \<le> 90)"

definition ascii_lower :: "char \<Rightarrow> bool" where
  "ascii_lower c = (97 \<le> ord c \<and> ord c \<le> 122)"

definition ascii_digit :: "char \<Rightarrow> bool" where
  "ascii_digit c = (48 \<le> ord c \<and> ord c \<le> 57)"

definition ascii_alpha :: "char \<Rightarrow> bool" where
  "ascii_alpha c = (ascii_upper c \<or> ascii_lower c)"

text \<open>The class \<open>\w\<close> of \<open>re\<close> on a \<open>str\<close> pattern: \<open>str.isalnum\<close> or the underscore.\<close>

definition word_char :: "char \<Rightarrow> bool" where
  "word_char c = (ascii_digit c \<or> ascii_alpha c \<or> ord c = 95
     \<or> ord c \<in> {170, 178, 179, 181, 185, 186, 188, 189, 190}
     \<or> (192 \<le> ord c \<and> ord c \<noteq> 215 \<and> ord c \<noteq> 247))"

text \<open>\<open>str.lower\<close> on one code point: the ASCII capitals and the Latin-1 capitals.\<close>

definition lower_char :: "char \<Rightarrow> char" where
  "lower_char c =
     (if ascii_upper c \<or> (192 \<le> ord c \<and> ord c \<le> 222 \<and> ord c \<noteq> 215)
      then char_of (ord c + 32) else c)"

definition lower :: "string \<Rightarrow> string" where
  "lower s = map lower_char s"

text \<open>\<open>s.lstrip(chars)\<close>, \<open>s.rstrip(chars)\<close> and \<open>s.strip(chars)\<close> for a class of characters.\<close>

definition lstrip :: "(char \<Rightarrow> bool) \<Rightarrow> string \<Rightarrow> string" where
  "lstrip P s = dropWhile P s"

definition rstrip :: "(char \<Rightarrow> bool) \<Rightarrow> string \<Rightarrow> string" where
  "rstrip P s = rev (dropWhile P (rev s))"

definition strip :: "(char \<Rightarrow> bool) \<Rightarrow> string \<Rightarrow> string" where
  "strip P s = rstrip P (lstrip P s)"

text \<open>\<open>s.split(sep)\<close> for a one-character separator: empty pieces are kept.\<close>

fun str_split :: "char \<Rightarrow> string \<Rightarrow> string list" where
  "str_split sep [] = [[]]"
| "str_split sep (c # cs) =
     (if c = sep then [] # str_split sep cs
      else (c # hd (str_split sep cs)) # tl (str_split sep cs))"

text \<open>\<open>sep.join(pieces)\<close>.\<close>

fun str_join :: "string \<Rightarrow> string list \<Rightarrow> string" where
  "str_join sep [] = []"
| "str_join sep [p] = p"
| "str_join sep (p # q # ps) = p @ sep @ str_join sep (q # ps)"

text \<open>\<open>s.replace(old, new)\<close> for a one-character \<open>old\<close>.\<close>

definition replace :: "char \<Rightarrow> string \<Rightarrow> string \<Rightarrow> string" where
  "replace old new s = concat (map (\<lambda>c. if c = old then new else [c]) s)"

text \<open>\<open>s.endswith(suffixes)\<close> for a tuple of suffixes.\<close>

definition endswith :: "string \<Rightarrow> string list \<Rightarrow> bool" where
  "endswith s sufs = (\<exists>x \<in> set sufs. suffix x s)"

text \<open>
  The part of \<open>s\<close> before the first \<open>c\<close> and the part after it: \<open>s.split(c, 1)\<close> when
  \<open>c\<close> occurs in \<open>s\<close>, and \<open>s[:i]\<close>, \<open>s[i+1:]\<close> for \<open>i = s.find(c)\<close>.
\<close>

definition before :: "char \<Rightarrow> string \<Rightarrow> string" where
  "before c s = takeWhile (\<lambda>x. x \<noteq> c) s"

definition after :: "char \<Rightarrow> string \<Rightarrow> string" where
  "after c s = drop 1 (dropWhile (\<lambda>x. x \<noteq> c) s)"

section \<open>Errors\<close>

text \<open>
  The exceptions the program meets. \<open>ValueError\<close> is what \<open>urllib.parse\<close> raises on a
  malformed bracketed host, \<open>RequestException\<close> is the class the crawl loop catches
  around a page fetch, \<open>SelectorSyntaxError\<close> is what the selector engine raises on
  a selector it cannot parse.
\<close>

datatype py_error = ValueError | RequestException | SelectorSyntaxError

section \<open>The collaborators: \<open>urllib.parse\<close>\<close>

text \<open>
  \<open>urlparse\<close> and \<open>urljoin\<close> are not code of the repository; they are embedded
  from CPython 3.11's \<open>urllib/parse.py\<close>, statement by statement. Two checks of
  \<open>urlsplit\<close> are not string manipulation: \<open>_check_bracketed_host\<close>, which asks the
  \<open>ipaddress\<close> module and is taken as the parameter \<open>bracketed_host_ok\<close>, and
  \<open>_checknetloc\<close>, which normalises a non-ASCII host: on code points below 256 it never
  raises, so it has no branch here.
\<close>

definition uses_relative :: "string list" where
  "uses_relative = ['''', ''ftp'', ''http'', ''gopher'', ''nntp'', ''imap'',
     ''wais'', ''file'', ''https'', ''shttp'', ''mms'',
     ''prospero'', ''rtsp'', ''rtsps'', ''rtspu'', ''sftp'',
     ''svn'', ''svn+ssh'', ''ws'', ''wss'']"

definition uses_netloc :: "string list" where
  "uses_netloc = ['''', ''ftp'', ''http'', ''gopher'', ''nntp'', ''telnet'',
     ''imap'', ''wais'', ''file'', ''mms'', ''https'', ''shttp'',
     ''snews'', ''prospero'', ''rtsp'', ''rtsps'', ''rtspu'', ''rsync'',
     ''svn'', ''svn+ssh'', ''sftp'', ''nfs'', ''git'', ''git+ssh'',
     ''ws'', ''wss'']"

definition uses_params :: "string list" where
  "uses_params = ['''', ''ftp'', ''hdl'', ''prospero'', ''http'', ''imap'',
     ''https'', ''shttp'', ''rtsp'', ''rtsps'', ''rtspu'', ''sip'',
     ''sips'', ''mms'', ''sftp'', ''tel'']"

definition scheme_char :: "char \<Rightarrow> bool" where
  "scheme_char c = (ascii_alpha c \<or> ascii_digit c \<or> c \<in> {CHR ''+'', CHR ''-'', CHR ''.''})"

definition c0_control_or_space :: "char \<Rightarrow> bool" where
  "c0_control_or_space c = (ord c \<le> 32)"

definition unsafe_url_byte :: "char \<Rightarrow> bool" where
  "unsafe_url_byte c = (c \<in> {CHR 0x09, CHR 0x0D, CHR 0x0A})"

text \<open>\<open>_splitnetloc(url, 2)\<close>: the host part ends at the first of \<open>/ ? #\<close>.\<close>

definition netloc_delim :: "char \<Rightarrow> bool" where
  "netloc_delim c = (c \<in> {CHR ''/'', CHR ''?'', CHR ''#''})"

definition splitnetloc :: "string \<Rightarrow> string \<times> string" where
  "splitnetloc url =
     (takeWhile (\<lambda>c. \<not> netloc_delim c) (drop 2 url),
      dropWhile (\<lambda>c. \<not> netloc_delim c) (drop 2 url))"

text \<open>A parsed URL: the six fields of \<open>ParseResult\<close>.\<close>

record parse_result =
  scheme :: string
  netloc :: string
  path :: string
  params :: string
  query :: string
  fragment :: string

text \<open>The scheme, if \<open>url\<close> starts with one, and the rest of \<open>url\<close>.\<close>

definition split_scheme :: "string \<Rightarrow> string \<Rightarrow> string \<times> string" where
  "split_scheme url dflt =
     (if CHR '':'' \<in> set url \<and> before CHR '':'' url \<noteq> [] \<and> ascii_alpha (hd url)
         \<and> list_all scheme_char (before CHR '':'' url)
      then (lower (before CHR '':'' url), after CHR '':'' url)
      else (dflt, url))"

text \<open>\<open>netloc.partition('[')[2].partition(']')[0]\<close>.\<close>

definition bracketed_host :: "string \<Rightarrow> string" where
  "bracketed_host nl = before CHR '']'' (after CHR ''['' nl)"

definition urlsplit :: "(string \<Rightarrow> bool) \<Rightarrow> string \<Rightarrow> string \<Rightarrow> py_error + parse_result" where
  "urlsplit bracketed_host_ok url0 scheme0 =
     (let url1 = filter (\<lambda>c. \<not> unsafe_url_byte c) (lstrip c0_control_or_space url0);
          scheme1 = filter (\<lambda>c. \<not> unsafe_url_byte c) (strip c0_control_or_space scheme0);
          (scheme2, url2) = split_scheme url1 scheme1;
          (nl, url3) = (if take 2 url2 = ''//'' then splitnetloc url2 else ([], url2));
          url4 = (if CHR ''#'' \<in> set url3 then before CHR ''#'' url3 else url3);
          frag = (if CHR ''#'' \<in> set url3 then after CHR ''#'' url3 else []);
          url5 = (if CHR ''?'' \<in> set url4 then before CHR ''?'' url4 else url4);
          qry = (if CHR ''?'' \<in> set url4 then after CHR ''?'' url4 else [])
      in if take 2 url2 = ''//''
            \<and> ((CHR ''['' \<in> set nl \<and> CHR '']'' \<notin> set nl) \<or> (CHR '']'' \<in> set nl \<and> CHR ''['' \<notin> set nl))
         then Inl ValueError
         else if take 2 url2 = ''//'' \<and> CHR ''['' \<in> set nl \<and> CHR '']'' \<in> set nl
            \<and> \<not> bracketed_host_ok (bracketed_host nl)
         then Inl ValueError
         else Inr \<lparr>scheme = scheme2, netloc = nl, path = url5, params = [],
                   query = qry, fragment = frag\<rparr>)"

text \<open>
  \<open>_splitparams\<close>, called when \<open>;\<close> occurs in the path: the parameters start at the
  first \<open>;\<close> of the last path segment.
\<close>

definition last_slash :: "string \<Rightarrow> nat" where
  "last_slash url = length url - length (takeWhile (\<lambda>c. c \<noteq> CHR ''/'') (rev url)) - 1"

definition splitparams :: "string \<Rightarrow> string \<times> string" where
  "splitparams url =
     (if CHR ''/'' \<in> set url then
        (if CHR '';'' \<in> set (drop (last_slash url) url)
         then (take (last_slash url) url @ before CHR '';'' (drop (last_slash url) url),
               after CHR '';'' (drop (last_slash url) url))
         else (url, []))
      else (before CHR '';'' url, after CHR '';'' url))"

definition urlparse :: "(string \<Rightarrow> bool) \<Rightarrow> string \<Rightarrow> string \<Rightarrow> py_error + parse_result" where
  "urlparse bracketed_host_ok url dflt =
     (case urlsplit bracketed_host_ok url dflt of
        Inl e \<Rightarrow> Inl e
      | Inr r \<Rightarrow>
          if scheme r \<in> set uses_params \<and> CHR '';'' \<in> set (path r)
          then Inr (r\<lparr>path := fst (splitparams (path r)), params := snd (splitparams (path r))\<rparr>)
          else Inr r)"

definition urlunsplit :: "string \<Rightarrow> string \<Rightarrow> string \<Rightarrow> string \<Rightarrow> string \<Rightarrow> string" where
  "urlunsplit sch nl url qry frag =
     (let url1 = (if nl \<noteq> [] \<or> (sch \<noteq> [] \<and> sch \<in> set uses_netloc) \<or> take 2 url = ''//''
                  then ''//'' @ nl @ (if url \<noteq> [] \<and> take 1 url \<noteq> ''/'' then ''/'' @ url else url)
                  else url);
          url2 = (if sch \<noteq> [] then sch @ '':'' @ url1 else url1);
          url3 = (if qry \<noteq> [] then url2 @ ''?'' @ qry else url2)
      in if frag \<noteq> [] then url3 @ ''#'' @ frag else url3)"

definition urlunparse :: "parse_result \<Rightarrow> string" where
  "urlunparse r =
     urlunsplit (scheme r) (netloc r)
       (if params r \<noteq> [] then path r @ '';'' @ params r else path r) (query r) (fragment r)"

text \<open>The loop of \<open>urljoin\<close> over the path segments; popping an empty list is ignored.\<close>

fun resolve_segments :: "string list \<Rightarrow> string list \<Rightarrow> string list" where
  "resolve_segments [] resolved_path = resolved_path"
| "resolve_segments (seg # segs) resolved_path =
     (if seg = ''..'' then resolve_segments segs (butlast resolved_path)
      else if seg = ''.'' then resolve_segments segs resolved_path
      else resolve_segments segs (resolved_path @ [seg]))"

text \<open>\<open>segments[1:-1] = filter(None, segments[1:-1])\<close>.\<close>

definition filter_inner :: "string list \<Rightarrow> string list" where
  "filter_inner segments =
     (if length segments < 2 then segments
      else hd segments # filter (\<lambda>s. s \<noteq> []) (butlast (tl segments)) @ [last segments])"

definition join_paths :: "string \<Rightarrow> string \<Rightarrow> string" where
  "join_paths bpath pth =
     (let base_parts = (if last (str_split CHR ''/'' bpath) \<noteq> [] then butlast (str_split CHR ''/'' bpath)
                        else str_split CHR ''/'' bpath);
          segments = (if take 1 pth = ''/'' then str_split CHR ''/'' pth
                      else filter_inner (base_parts @ str_split CHR ''/'' pth));
          resolved_path = resolve_segments segments [];
          resolved_path' = (if last segments \<in> {''.'', ''..''} then resolved_path @ [[]]
                            else resolved_path)
      in if str_join ''/'' resolved_path' = [] then ''/'' else str_join ''/'' resolved_path')"

definition urljoin :: "(string \<Rightarrow> bool) \<Rightarrow> string \<Rightarrow> string \<Rightarrow> py_error + string" where
  "urljoin bracketed_host_ok base url =
     (if base = [] then Inr url
      else if url = [] then Inr base
      else case urlparse bracketed_host_ok base [] of
        Inl e \<Rightarrow> Inl e
      | Inr b \<Rightarrow>
         (case urlparse bracketed_host_ok url (scheme b) of
            Inl e \<Rightarrow> Inl e
          | Inr u \<Rightarrow>
              if scheme u \<noteq> scheme b \<or> scheme u \<notin> set uses_relative then Inr url
              else if scheme u \<in> set uses_netloc \<and> netloc u \<noteq> [] then Inr (urlunparse u)
              else
                (let nl = (if scheme u \<in> set uses_netloc then netloc b else netloc u)
                 in if path u = [] \<and> params u = []
                    then Inr (urlunparse (u\<lparr>netloc := nl, path := path b, params := params b,
                                query := (if query u = [] then query b else query u)\<rparr>))
                    else Inr (urlunparse (u\<lparr>netloc := nl, path := join_paths (path b) (path u)\<rparr>)))))"

section \<open>The collaborators: \<open>os.path\<close>, \<open>re\<close>\<close>

text \<open>
  \<open>os.path.splitext\<close> (POSIX): the extension starts at the last dot of the last path
  component, unless only dots come before it in that component.
\<close>

definition splitext :: "string \<Rightarrow> string \<times> string" where
  "splitext p =
     (let name = rev (takeWhile (\<lambda>c. c \<noteq> CHR ''/'') (rev p));
          ext = rev (takeWhile (\<lambda>c. c \<noteq> CHR ''.'') (rev name));
          stem = take (length name - length ext - 1) name
      in if CHR ''.'' \<in> set name \<and> (\<exists>c \<in> set stem. c \<noteq> CHR ''.'')
         then (take (length p - length ext - 1) p, CHR ''.'' # ext)
         else (p, []))"

text \<open>\<open>os.path.join(a, b)\<close> (POSIX).\<close>

definition os_path_join :: "string \<Rightarrow> string \<Rightarrow> string" where
  "os_path_join a b =
     (if take 1 b = ''/'' then b
      else if a = [] \<or> last a = CHR ''/'' then a @ b
      else a @ ''/'' @ b)"

text \<open>\<open>re.sub(r'[^a-zA-Z0-9.]', '', ext)\<close>.\<close>

definition sanitize_ext :: "string \<Rightarrow> string" where
  "sanitize_ext ext = filter (\<lambda>c. ascii_alpha c \<or> ascii_digit c \<or> c = CHR ''.'') ext"

text \<open>\<open>s.replace(old, '')\<close> for a string \<open>old\<close>: the occurrences are removed left to right.\<close>

function remove_all :: "string \<Rightarrow> string \<Rightarrow> string" where
  "remove_all old [] = []"
| "remove_all old (c # cs) =
     (if old \<noteq> [] \<and> prefix old (c # cs) then remove_all old (drop (length old) (c # cs))
      else c # remove_all old cs)"
  by pat_completeness auto
termination
  by (relation "measure (\<lambda>(old, s). length s)") auto

section \<open>The collaborators: the parsed document\<close>

text \<open>
  The tree \<open>BeautifulSoup(html, 'html.parser')\<close> returns: a tag has a name, its
  attributes and its children; the document itself is a tag. The parser, the selector
  engine (\<open>select_one\<close>), the serialiser (\<open>str(tag)\<close>), \<open>html2text\<close> and MD5 are
  parameters, collected in \<open>libs\<close>.
\<close>

datatype node = Text string | Tag string "(string \<times> string) list" "node list"

fun descendants :: "node \<Rightarrow> node list" where
  "descendants (Text s) = []"
| "descendants (Tag nm attrs cs) = concat (map (\<lambda>c. c # descendants c) cs)"

fun has_attr :: "string \<Rightarrow> string \<Rightarrow> node \<Rightarrow> bool" where
  "has_attr nm a (Text s) = False"
| "has_attr nm a (Tag nm' attrs cs) = (nm' = nm \<and> map_of attrs a \<noteq> None)"

fun get_attr :: "string \<Rightarrow> node \<Rightarrow> string" where
  "get_attr a (Text s) = []"
| "get_attr a (Tag nm attrs cs) = (case map_of attrs a of None \<Rightarrow> [] | Some v \<Rightarrow> v)"

fun is_tag :: "string \<Rightarrow> node \<Rightarrow> bool" where
  "is_tag nm (Text s) = False"
| "is_tag nm (Tag nm' attrs cs) = (nm' = nm)"

text \<open>\<open>tag.find_all(nm, **{a: True})\<close>: the descendants in document order.\<close>

definition find_all :: "string \<Rightarrow> string \<Rightarrow> node \<Rightarrow> node list" where
  "find_all nm a root = filter (has_attr nm a) (descendants root)"

text \<open>\<open>soup.find(nm)\<close>.\<close>

definition soup_find :: "string \<Rightarrow> node \<Rightarrow> node option" where
  "soup_find nm root = (case filter (is_tag nm) (descendants root) of [] \<Rightarrow> None | t # ts \<Rightarrow> Some t)"

text \<open>\<open>tag.text\<close>: the strings below the tag, concatenated.\<close>

fun get_text :: "node \<Rightarrow> string" where
  "get_text (Text s) = s"
| "get_text (Tag nm attrs cs) = concat (map get_text cs)"

text \<open>\<open>tag[a] = v\<close>.\<close>

definition set_attr :: "string \<Rightarrow> string \<Rightarrow> (string \<times> string) list \<Rightarrow> (string \<times> string) list" where
  "set_attr a v attrs =
     (if map_of attrs a = None then attrs @ [(a, v)]
      else map (\<lambda>(k, x). if k = a then (k, v) else (k, x)) attrs)"

fun children :: "node \<Rightarrow> node list" where
  "children (Text s) = []"
| "children (Tag nm attrs cs) = cs"

fun with_children :: "node \<Rightarrow> node list \<Rightarrow> node" where
  "with_children (Text s) cs = Text s"
| "with_children (Tag nm attrs cs') cs = Tag nm attrs cs"

record libs =
  bracketed_host_ok :: "string \<Rightarrow> bool"
  md5_hexdigest :: "string \<Rightarrow> string"
  html_parser :: "string \<Rightarrow> node"
  select_one :: "string \<Rightarrow> node \<Rightarrow> py_error + node option"
  to_html :: "node \<Rightarrow> string"
  html2text :: "string \<Rightarrow> string"

section \<open>The world: network, file system, console\<close>

text \<open>
  What the program prints and requests is recorded in order. A page fetch either
  raises a \<open>RequestException\<close> or returns a status and a text; an image fetch either
  raises or returns a status and the bytes that arrive, after which the stream may
  still break. The network may answer differently over time: it sees the events so far.
  The file system never refuses an operation.
\<close>

datatype event =
    Starting_crawl
  | Processing_link string
  | Get_page string
  | Error_fetching string
  | Sleep
  | Selector_warning string
  | No_content_error string
  | Downloading_image string
  | Get_image string
  | Error_downloading_image string
  | Processing_error string

datatype page_response = Page_raises | Page_response nat string

datatype image_response = Image_raises | Image_response nat string bool

record network =
  page_get :: "event list \<Rightarrow> string \<Rightarrow> page_response"
  image_get :: "event list \<Rightarrow> string \<Rightarrow> image_response"

datatype fs_entry = Dir | File string

record world =
  fs :: "string \<Rightarrow> fs_entry option"
  events :: "event list"

definition emit :: "event \<Rightarrow> world \<Rightarrow> world" where
  "emit e w = w\<lparr>events := events w @ [e]\<rparr>"

definition os_path_exists :: "world \<Rightarrow> string \<Rightarrow> bool" where
  "os_path_exists w p = (fs w p \<noteq> None)"

definition os_makedirs :: "string \<Rightarrow> world \<Rightarrow> world" where
  "os_makedirs p w = w\<lparr>fs := (fs w)(p \<mapsto> Dir)\<rparr>"

definition write_file :: "string \<Rightarrow> string \<Rightarrow> world \<Rightarrow> world" where
  "write_file p content w = w\<lparr>fs := (fs w)(p \<mapsto> File content)\<rparr>"

section \<open>Configuration\<close>

record config =
  BASE_URL :: string
  OUTPUT_DIR :: string
  OUTPUT_FILE :: string
  IMAGES_DIR :: string
  CONTENT_SELECTOR :: string

section \<open>Link classification\<close>

definition is_valid :: "libs \<Rightarrow> string \<Rightarrow> py_error + bool" where
  "is_valid L url =
     (case urlparse (bracketed_host_ok L) url [] of
        Inl e \<Rightarrow> Inl e
      | Inr parsed \<Rightarrow> Inr (netloc parsed \<noteq> [] \<and> scheme parsed \<noteq> []))"

definition non_page_extensions :: "string list" where
  "non_page_extensions =
     [''.png'', ''.jpg'', ''.jpeg'', ''.gif'', ''.css'', ''.js'', ''.xml'', ''.rss'', ''.pdf'', ''.zip'']"

definition is_internal_link :: "config \<Rightarrow> libs \<Rightarrow> string \<Rightarrow> py_error + bool" where
  "is_internal_link cfg L url =
     (case urlparse (bracketed_host_ok L) url [] of
        Inl e \<Rightarrow> Inl e
      | Inr u \<Rightarrow>
         (case urlparse (bracketed_host_ok L) (BASE_URL cfg) [] of
            Inl e \<Rightarrow> Inl e
          | Inr b \<Rightarrow>
              if netloc u \<noteq> netloc b then Inr False
              else if endswith (path u) non_page_extensions then Inr False
              else Inr True))"

section \<open>Content extraction\<close>

text \<open>
  \<open>for t in content_element.find_all(nm, **{a: True}): t[a] = f(t[a])\<close>, over the
  children of the content element, in document order. The body \<open>f\<close> may change the
  world and may raise; a raise ends the loop with the world as it is then.
\<close>

definition set_tag_attr ::
  "string \<Rightarrow> string \<Rightarrow> (string \<Rightarrow> 'w \<Rightarrow> (py_error + string) \<times> 'w) \<Rightarrow> string
     \<Rightarrow> (string \<times> string) list \<Rightarrow> 'w \<Rightarrow> (py_error + (string \<times> string) list) \<times> 'w" where
  "set_tag_attr nm a f nm' attrs w =
     (case (if nm' = nm then map_of attrs a else None) of
        None \<Rightarrow> (Inr attrs, w)
      | Some old \<Rightarrow>
         (case f old w of
            (Inl e, w1) \<Rightarrow> (Inl e, w1)
          | (Inr new, w1) \<Rightarrow> (Inr (set_attr a new attrs), w1)))"

fun for_each_tag ::
  "string \<Rightarrow> string \<Rightarrow> (string \<Rightarrow> 'w \<Rightarrow> (py_error + string) \<times> 'w) \<Rightarrow> node list \<Rightarrow> 'w
     \<Rightarrow> (py_error + node list) \<times> 'w" where
  "for_each_tag nm a f [] w = (Inr [], w)"
| "for_each_tag nm a f (Text s # ns) w =
     (case for_each_tag nm a f ns w of
        (Inl e, w') \<Rightarrow> (Inl e, w')
      | (Inr ns', w') \<Rightarrow> (Inr (Text s # ns'), w'))"
| "for_each_tag nm a f (Tag nm' attrs cs # ns) w =
     (case set_tag_attr nm a f nm' attrs w of
        (Inl e, w1) \<Rightarrow> (Inl e, w1)
      | (Inr attrs', w1) \<Rightarrow>
         (case for_each_tag nm a f cs w1 of
            (Inl e, w2) \<Rightarrow> (Inl e, w2)
          | (Inr cs', w2) \<Rightarrow>
             (case for_each_tag nm a f ns w2 of
                (Inl e, w3) \<Rightarrow> (Inl e, w3)
              | (Inr ns', w3) \<Rightarrow> (Inr (Tag nm' attrs' cs' # ns'), w3))))"

text \<open>Lines 75 to 83: the content element, or the body, or nothing.\<close>

definition select_content ::
  "config \<Rightarrow> libs \<Rightarrow> string \<Rightarrow> node \<Rightarrow> world \<Rightarrow> (py_error + node option) \<times> world" where
  "select_content cfg L url soup w =
     (case select_one L (CONTENT_SELECTOR cfg) soup of
        Inl e \<Rightarrow> (Inl e, w)
      | Inr (Some content_element) \<Rightarrow> (Inr (Some content_element), w)
      | Inr None \<Rightarrow>
         (case select_one L ''body'' soup of
            Inl e \<Rightarrow> (Inl e, emit (Selector_warning url) w)
          | Inr (Some content_element) \<Rightarrow>
              (Inr (Some content_element), emit (Selector_warning url) w)
          | Inr None \<Rightarrow>
              (Inr None, emit (No_content_error url) (emit (Selector_warning url) w))))"

text \<open>Lines 110 to 118: the download of one image.\<close>

definition download_image :: "network \<Rightarrow> string \<Rightarrow> string \<Rightarrow> world \<Rightarrow> world" where
  "download_image net img_url img_fs_path w =
     (let w1 = emit (Downloading_image img_url) w;
          w2 = emit (Get_image img_url) w1
      in case image_get net (events w1) img_url of
           Image_raises \<Rightarrow> emit (Error_downloading_image img_url) w2
         | Image_response status_code received broken \<Rightarrow>
             if status_code = 200
             then (if broken
                   then emit (Error_downloading_image img_url) (write_file img_fs_path received w2)
                   else write_file img_fs_path received w2)
             else w2)"

text \<open>Lines 99 to 104: the file name of an image.\<close>

definition img_filename :: "libs \<Rightarrow> string \<Rightarrow> py_error + string" where
  "img_filename L img_url =
     (case urlparse (bracketed_host_ok L) img_url [] of
        Inl e \<Rightarrow> Inl e
      | Inr parsed \<Rightarrow>
          Inr (md5_hexdigest L img_url
               @ sanitize_ext (if snd (splitext (path parsed)) \<noteq> []
                               then snd (splitext (path parsed)) else ''.png'')))"

text \<open>Lines 96 to 121: the body of the loop over the images; its value is the new \<open>src\<close>.\<close>

definition localize_image ::
  "config \<Rightarrow> libs \<Rightarrow> network \<Rightarrow> string \<Rightarrow> string \<Rightarrow> world \<Rightarrow> (py_error + string) \<times> world" where
  "localize_image cfg L net url src w =
     (case urljoin (bracketed_host_ok L) url src of
        Inl e \<Rightarrow> (Inl e, w)
      | Inr img_url \<Rightarrow>
         (case img_filename L img_url of
            Inl e \<Rightarrow> (Inl e, w)
          | Inr fname \<Rightarrow>
              (Inr (os_path_join (IMAGES_DIR cfg) fname),
               if \<not> os_path_exists w (os_path_join (os_path_join (OUTPUT_DIR cfg) (IMAGES_DIR cfg)) fname)
               then download_image net img_url
                      (os_path_join (os_path_join (OUTPUT_DIR cfg) (IMAGES_DIR cfg)) fname) w
               else w)))"

text \<open>Lines 89 to 92: the images directory is created if it does not exist.\<close>

definition images_dir_made :: "config \<Rightarrow> world \<Rightarrow> world" where
  "images_dir_made cfg w =
     (if \<not> os_path_exists w (os_path_join (OUTPUT_DIR cfg) (IMAGES_DIR cfg))
      then os_makedirs (os_path_join (OUTPUT_DIR cfg) (IMAGES_DIR cfg)) w else w)"

text \<open>Line 87: the body of the loop over the links of the content element.\<close>

definition absolute_href :: "libs \<Rightarrow> string \<Rightarrow> string \<Rightarrow> world \<Rightarrow> (py_error + string) \<times> world" where
  "absolute_href L url href w = (urljoin (bracketed_host_ok L) url href, w)"

text \<open>
  Lines 72 to 121, the part of \<open>get_markdown_content\<close> that changes the content
  element: its value is the element as it is serialised, or nothing.
\<close>

definition localized_content ::
  "config \<Rightarrow> libs \<Rightarrow> network \<Rightarrow> string \<Rightarrow> node \<Rightarrow> world \<Rightarrow> (py_error + node option) \<times> world" where
  "localized_content cfg L net url soup w =
     (case select_content cfg L url soup w of
        (Inl e, w1) \<Rightarrow> (Inl e, w1)
      | (Inr None, w1) \<Rightarrow> (Inr None, w1)
      | (Inr (Some content_element), w1) \<Rightarrow>
         (case for_each_tag ''a'' ''href'' (absolute_href L url) (children content_element) w1 of
            (Inl e, w2) \<Rightarrow> (Inl e, w2)
          | (Inr cs, w2) \<Rightarrow>
             (case for_each_tag ''img'' ''src'' (localize_image cfg L net url) cs
                     (images_dir_made cfg w2) of
                (Inl e, w3) \<Rightarrow> (Inl e, w3)
              | (Inr cs', w3) \<Rightarrow> (Inr (Some (with_children content_element cs')), w3))))"

text \<open>
  Lines 124 to 128. The title is read after the loops have changed attributes of the
  tree; they change no tag name and no string, so it is read from the parsed tree.
\<close>

definition page_title :: "node \<Rightarrow> string" where
  "page_title soup =
     (let t = (case soup_find ''title'' soup of None \<Rightarrow> ''index'' | Some title_tag \<Rightarrow> get_text title_tag)
      in if CHR ''|'' \<in> set t then strip isspace (hd (str_split CHR ''|'' t)) else t)"

definition newline :: string where
  "newline = [CHR 0x0A]"

text \<open>
  Lines 136 and 137. The first \<open>replace\<close> removes U+200B, which is no code point of
  the embedding; the second removes the sequence E2 80 8B.
\<close>

definition markdown_content :: "libs \<Rightarrow> node \<Rightarrow> string" where
  "markdown_content L content_element =
     html2text L (remove_all [CHR 0xE2, CHR 0x80, CHR 0x8B] (to_html L content_element))"

definition markdown_block :: "string \<Rightarrow> string \<Rightarrow> string \<Rightarrow> string" where
  "markdown_block title url md =
     ''# '' @ title @ newline @ newline @ ''[Original URL: '' @ url @ '']'' @ newline @ newline
       @ ''---'' @ newline @ newline @ md @ newline @ newline"

definition get_markdown_content ::
  "config \<Rightarrow> libs \<Rightarrow> network \<Rightarrow> string \<Rightarrow> string \<Rightarrow> world \<Rightarrow> (string \<times> string) option \<times> world" where
  "get_markdown_content cfg L net url html_content w =
     (case localized_content cfg L net url (html_parser L html_content) w of
        (Inl e, w') \<Rightarrow> (None, emit (Processing_error url) w')
      | (Inr None, w') \<Rightarrow> (None, w')
      | (Inr (Some content_element), w') \<Rightarrow>
          (Some (markdown_block (page_title (html_parser L html_content)) url
                   (markdown_content L content_element),
                 page_title (html_parser L html_content)), w'))"

section \<open>The crawl loop\<close>

text \<open>
  The module-level state of the program and the two lists of \<open>scrape_docs\<close>. An
  exception that no handler of the program catches ends the run: it is kept in
  \<open>uncaught\<close>.
\<close>

record crawl =
  visited_urls :: "string set"
  urls_to_visit :: "string list"
  all_markdown_content :: "string list"
  toc_entries :: "string list"
  uncaught :: "py_error option"
  env :: world

text \<open>Lines 162 and 193: \<open>urljoin(url, urlparse(url).path)\<close>.\<close>

definition base_url_only :: "libs \<Rightarrow> string \<Rightarrow> py_error + string" where
  "base_url_only L url =
     (case urlparse (bracketed_host_ok L) url [] of
        Inl e \<Rightarrow> Inl e
      | Inr parsed \<Rightarrow> urljoin (bracketed_host_ok L) url (path parsed))"

text \<open>Lines 190 and 193: \<open>full_url_base\<close> for one \<open>href\<close>.\<close>

definition full_url_base :: "config \<Rightarrow> libs \<Rightarrow> string \<Rightarrow> py_error + string" where
  "full_url_base cfg L href =
     (case urljoin (bracketed_host_ok L) (BASE_URL cfg) href of
        Inl e \<Rightarrow> Inl e
      | Inr full_url \<Rightarrow> base_url_only L full_url)"

text \<open>
  Lines 186 to 197: the loop over the links of the page. Its value is the exception
  that ended it, if any, and the queue.
\<close>

fun find_new_links ::
  "config \<Rightarrow> libs \<Rightarrow> string set \<Rightarrow> string list \<Rightarrow> string list \<Rightarrow> py_error option \<times> string list" where
  "find_new_links cfg L visited [] queue = (None, queue)"
| "find_new_links cfg L visited (href # hrefs) queue =
     (case full_url_base cfg L href of
        Inl e \<Rightarrow> (Some e, queue)
      | Inr u \<Rightarrow>
         (case is_internal_link cfg L u of
            Inl e \<Rightarrow> (Some e, queue)
          | Inr internal \<Rightarrow>
              find_new_links cfg L visited hrefs
                (if internal \<and> u \<notin> visited \<and> u \<notin> set queue then queue @ [u] else queue)))"

text \<open>\<open>response.raise_for_status()\<close> of \<open>requests\<close>: it raises for 4xx and 5xx.\<close>

definition raise_for_status :: "nat \<Rightarrow> bool" where
  "raise_for_status status_code = (400 \<le> status_code \<and> status_code < 600)"

text \<open>Lines 178 to 200: what is done with a response that did not raise.\<close>

definition process_response :: "config \<Rightarrow> libs \<Rightarrow> network \<Rightarrow> string \<Rightarrow> string \<Rightarrow> crawl \<Rightarrow> crawl" where
  "process_response cfg L net url text st =
     (let (content_data, w) = get_markdown_content cfg L net url text (env st);
          st1 = (case content_data of
                   None \<Rightarrow> st\<lparr>env := w\<rparr>
                 | Some (content, title) \<Rightarrow>
                     st\<lparr>all_markdown_content := all_markdown_content st @ [content],
                        toc_entries := toc_entries st @ [title], env := w\<rparr>);
          (err, queue) = find_new_links cfg L (visited_urls st1)
                           (map (get_attr ''href'') (find_all ''a'' ''href'' (html_parser L text)))
                           (urls_to_visit st1)
      in case err of
           Some e \<Rightarrow> st1\<lparr>urls_to_visit := queue, uncaught := Some e\<rparr>
         | None \<Rightarrow> st1\<lparr>urls_to_visit := queue, env := emit Sleep (env st1)\<rparr>)"

text \<open>Lines 159 to 203: one turn of the loop, for the URL popped from the queue.\<close>

definition visit :: "config \<Rightarrow> libs \<Rightarrow> network \<Rightarrow> string \<Rightarrow> crawl \<Rightarrow> crawl" where
  "visit cfg L net url st =
     (case base_url_only L url of
        Inl e \<Rightarrow> st\<lparr>uncaught := Some e\<rparr>
      | Inr b \<Rightarrow>
          if b \<in> visited_urls st then st
          else
            (let st1 = st\<lparr>visited_urls := insert b (visited_urls st),
                          env := emit (Get_page url) (emit (Processing_link b) (env st))\<rparr>
             in case page_get net (events (emit (Processing_link b) (env st))) url of
                  Page_raises \<Rightarrow> st1\<lparr>env := emit (Error_fetching b) (env st1)\<rparr>
                | Page_response status_code text \<Rightarrow>
                    if raise_for_status status_code
                    then st1\<lparr>env := emit (Error_fetching b) (env st1)\<rparr>
                    else process_response cfg L net b text st1))"

definition loop_body :: "config \<Rightarrow> libs \<Rightarrow> network \<Rightarrow> crawl \<Rightarrow> crawl" where
  "loop_body cfg L net st =
     (case urls_to_visit st of
        [] \<Rightarrow> st
      | url # rest \<Rightarrow> visit cfg L net url (st\<lparr>urls_to_visit := rest\<rparr>))"

text \<open>
  The loop \<open>while urls_to_visit\<close> has no bound and need not end: \<open>crawl_loop n\<close> is
  the state after at most \<open>n\<close> turns, and the loop has ended there when the queue is
  empty or an exception has escaped.
\<close>

definition stopped :: "crawl \<Rightarrow> bool" where
  "stopped st = (urls_to_visit st = [] \<or> uncaught st \<noteq> None)"

fun crawl_loop :: "config \<Rightarrow> libs \<Rightarrow> network \<Rightarrow> nat \<Rightarrow> crawl \<Rightarrow> crawl" where
  "crawl_loop cfg L net 0 st = st"
| "crawl_loop cfg L net (Suc n) st =
     (if stopped st then st else crawl_loop cfg L net n (loop_body cfg L net st))"

section \<open>Table of contents and output\<close>

text \<open>Line 208.\<close>

text \<open>The characters that \<open>[^\w\s-]\<close> does not match.\<close>

definition kept_in_slug :: "char \<Rightarrow> bool" where
  "kept_in_slug c = (word_char c \<or> isspace c \<or> c = CHR ''-'')"

definition slug :: "string \<Rightarrow> string" where
  "slug title = replace CHR '' '' ''-'' (strip isspace (filter kept_in_slug (lower title)))"

definition toc_lines :: "string list \<Rightarrow> string list" where
  "toc_lines titles =
     (''# Table of Contents'' @ newline)
       # map (\<lambda>title. ''* ['' @ title @ ''](#'' @ slug title @ '')'') titles"

definition output_text :: "string list \<Rightarrow> string list \<Rightarrow> string" where
  "output_text titles blocks =
     str_join newline (toc_lines titles) @ newline @ newline @ ''---'' @ newline @ newline
       @ str_join newline blocks"

definition initial :: "config \<Rightarrow> world \<Rightarrow> crawl" where
  "initial cfg w =
     \<lparr>visited_urls = {}, urls_to_visit = [BASE_URL cfg], all_markdown_content = [],
      toc_entries = [], uncaught = None,
      env = (if \<not> os_path_exists (emit Starting_crawl w) (OUTPUT_DIR cfg)
             then os_makedirs (OUTPUT_DIR cfg) (emit Starting_crawl w)
             else emit Starting_crawl w)\<rparr>"

text \<open>
  \<open>scrape_docs\<close>, with at most \<open>n\<close> turns of the loop: \<open>None\<close> when the loop has not
  ended by then, the escaped exception when there is one, and else the world after the
  output file is written.
\<close>

definition scrape_docs ::
  "config \<Rightarrow> libs \<Rightarrow> network \<Rightarrow> nat \<Rightarrow> world \<Rightarrow> (py_error + world) option" where
  "scrape_docs cfg L net n w =
     (let st = crawl_loop cfg L net n (initial cfg w)
      in case uncaught st of
           Some e \<Rightarrow> Some (Inl e)
         | None \<Rightarrow>
             if urls_to_visit st = []
             then Some (Inr (write_file (os_path_join (OUTPUT_DIR cfg) (OUTPUT_FILE cfg))
                               (output_text (toc_entries st) (all_markdown_content st)) (env st)))
             else None)"

section \<open>Observations\<close>

text \<open>The pages requested so far, in order.\<close>

fun fetched_pages :: "event list \<Rightarrow> string list" where
  "fetched_pages [] = []"
| "fetched_pages (Get_page u # evs) = u # fetched_pages evs"
| "fetched_pages (e # evs) = fetched_pages evs"

text \<open>The images requested so far, in order.\<close>

fun fetched_images :: "event list \<Rightarrow> string list" where
  "fetched_images [] = []"
| "fetched_images (Get_image u # evs) = u # fetched_images evs"
| "fetched_images (e # evs) = fetched_images evs"

text \<open>
  The values of attribute \<open>a\<close> on the tags \<open>nm\<close> of a forest, in document order: what
  \<open>find_all(nm, **{a: True})\<close> reads on the children of a tag.
\<close>

fun attr_values :: "string \<Rightarrow> string \<Rightarrow> node list \<Rightarrow> string list" where
  "attr_values nm a [] = []"
| "attr_values nm a (Text s # ns) = attr_values nm a ns"
| "attr_values nm a (Tag nm' attrs cs # ns) =
     (case (if nm' = nm then map_of attrs a else None) of None \<Rightarrow> [] | Some v \<Rightarrow> [v])
       @ attr_values nm a cs @ attr_values nm a ns"

text \<open>Line 105: where the image with file name \<open>fname\<close> is kept.\<close>

definition img_fs_path :: "config \<Rightarrow> string \<Rightarrow> string" where
  "img_fs_path cfg fname = os_path_join (os_path_join (OUTPUT_DIR cfg) (IMAGES_DIR cfg)) fname"

text \<open>
  The slug in the words of the specification: lowercase, strip the characters that are
  no word character, white space or hyphen, turn spaces into hyphens.
\<close>

definition slug_as_specified :: "string \<Rightarrow> string" where
  "slug_as_specified title = replace CHR '' '' ''-'' (filter kept_in_slug (lower title))"

text \<open>
  What a run from world \<open>w\<close> to world \<open>w'\<close> leaves alone: it requests no page, it
  requests no image whose file was there in \<open>w\<close>, and it changes no path that was
  there in \<open>w\<close>.
\<close>

definition cache_respected :: "config \<Rightarrow> libs \<Rightarrow> world \<Rightarrow> world \<Rightarrow> bool" where
  "cache_respected cfg L w w' =
     ((\<exists>new. events w' = events w @ new \<and> fetched_pages new = []
          \<and> (\<forall>u \<in> set (fetched_images new). \<forall>fname. img_filename L u = Inr fname
                \<longrightarrow> \<not> os_path_exists w (img_fs_path cfg fname)))
      \<and> (\<forall>p. os_path_exists w p \<longrightarrow> fs w' p = fs w p))"

section \<open>A small site\<close>

text \<open>
  Concrete collaborators, on which the definitions above can be run: a selector engine
  that knows tag names only, a serialiser, a converter that keeps its input, a digest
  that is constant, and a parser that knows a few documents by name.
\<close>

definition tag_select :: "string \<Rightarrow> node \<Rightarrow> py_error + node option" where
  "tag_select sel root = Inr (soup_find sel root)"

fun render :: "node \<Rightarrow> string" where
  "render (Text s) = s"
| "render (Tag nm attrs cs) =
     ''<'' @ nm @ concat (map (\<lambda>(k, v). '' '' @ k @ ''='' @ v) attrs) @ ''>''
       @ concat (map render cs) @ ''</'' @ nm @ ''>''"

definition demo_parser :: "string \<Rightarrow> node" where
  "demo_parser html =
     (if html = ''root'' then
        Tag ''[document]'' []
          [Tag ''body'' []
             [Tag ''a'' [(''href'', ''https://h#a'')] [Text ''A''],
              Tag ''a'' [(''href'', ''https://h#b'')] [Text ''B'']]]
      else if html = ''guide'' then
        Tag ''[document]'' []
          [Tag ''title'' [] [Text ''Guide | Site''],
           Tag ''body'' []
             [Tag ''main'' []
                [Tag ''a'' [(''href'', ''next'')] [Text ''Next''],
                 Tag ''img'' [(''src'', ''https://site/a.png'')] []]]]
      else if html = ''queries'' then
        Tag ''[document]'' []
          [Tag ''body'' []
             [Tag ''a'' [(''href'', ''https://h?x=1'')] [Text ''one''],
              Tag ''a'' [(''href'', ''https://h?x=2'')] [Text ''two'']]]
      else if html = ''odd'' then
        Tag ''[document]'' []
          [Tag ''body'' [] [Tag ''a'' [(''href'', ''foo:////h/x'')] [Text ''x'']]]
      else if html = ''bare'' then
        Tag ''[document]'' [] [Tag ''p'' [] [Text ''hi'']]
      else Tag ''[document]'' [] [Tag ''body'' [] [Text html]])"

definition demo_libs :: libs where
  "demo_libs =
     \<lparr>bracketed_host_ok = (\<lambda>h. True),
      md5_hexdigest = (\<lambda>s. ''0cc175b9c0f1b6a831c399e269772661''),
      html_parser = demo_parser, select_one = tag_select, to_html = render,
      html2text = (\<lambda>s. s)\<rparr>"

definition demo_cfg :: config where
  "demo_cfg =
     \<lparr>BASE_URL = ''https://h/'', OUTPUT_DIR = ''out'', OUTPUT_FILE = ''docs.md'',
      IMAGES_DIR = ''images'', CONTENT_SELECTOR = ''main''\<rparr>"

text \<open>A network that does not change over time.\<close>

definition serve :: "(string \<Rightarrow> page_response) \<Rightarrow> (string \<Rightarrow> image_response) \<Rightarrow> network" where
  "serve pages images = \<lparr>page_get = (\<lambda>evs. pages), image_get = (\<lambda>evs. images)\<rparr>"

definition demo_pages :: "string \<Rightarrow> page_response" where
  "demo_pages url =
     (if url = ''https://h/'' then Page_response 200 ''root''
      else if url = ''https://h/guide'' then Page_response 200 ''guide''
      else Page_response 200 ''plain'')"

definition demo_net :: network where
  "demo_net = serve demo_pages (\<lambda>url. Image_response 200 ''PNG'' False)"

definition empty_world :: world where
  "empty_world = \<lparr>fs = Map.empty, events = []\<rparr>"

text \<open>A world in which the image of the guide is in the cache already.\<close>

definition cached_world :: world where
  "cached_world =
     \<lparr>fs = [''out/images/0cc175b9c0f1b6a831c399e269772661.png'' \<mapsto> File ''old''], events = []\<rparr>"

text \<open>The crawl when the page \<open>https://h/docs/guide\<close> has just been fetched.\<close>

definition guide_state :: crawl where
  "guide_state =
     \<lparr>visited_urls = {''https://h/'', ''https://h/docs/guide''}, urls_to_visit = [],
      all_markdown_content = [], toc_entries = [], uncaught = None, env = empty_world\<rparr>"

text \<open>
  No page is requested twice, and the cleaned URL of every requested page is visited.
\<close>

definition fetched_once :: "libs \<Rightarrow> crawl \<Rightarrow> bool" where
  "fetched_once L st =
     (distinct (fetched_pages (events (env st)))
      \<and> (\<forall>u \<in> set (fetched_pages (events (env st))).
            \<exists>b. base_url_only L u = Inr b \<and> b \<in> visited_urls st))"

section \<open>Properties of the table of contents\<close>

lemma strip_unchanged:
  "s = [] \<or> (\<not> P (hd s) \<and> \<not> P (last s)) \<Longrightarrow> strip P s = s"
  by (cases s) (auto simp: strip_def lstrip_def rstrip_def dropWhile_eq_self_iff hd_rev rev_swap
      simp del: rev.simps)

text \<open>
  C8, as stated: the slug is the lowercased title without the characters that are no
  word character, white space or hyphen, and with its spaces turned into hyphens. The
  code also trims the title before it turns spaces into hyphens: for the title
  \<open>" a"\<close> the slug is \<open>"a"\<close>, where the stated computation gives \<open>"-a"\<close>.
\<close>

theorem slug_differs_from_specified:
  "slug '' a'' = ''a'' \<and> slug_as_specified '' a'' = ''-a'' \<and> slug '' a'' \<noteq> slug_as_specified '' a''"
  by code_simp

text \<open>
  C8, amended: the slug is the stated one whenever the title, lowercased and without
  the removed characters, neither starts nor ends with white space (the code trims such
  white space first, and turns each remaining space into one hyphen); and the table of
  contents has one line per title, built from the title and its slug alone, so equal
  titles give equal lines and no slug is disambiguated.
\<close>

theorem slug_and_toc:
  "(filter kept_in_slug (lower title) = [] \<or>
      (\<not> isspace (hd (filter kept_in_slug (lower title)))
        \<and> \<not> isspace (last (filter kept_in_slug (lower title))))
     \<longrightarrow> slug title = slug_as_specified title)
   \<and> length (toc_lines titles) = Suc (length titles)
   \<and> (\<forall>i < length titles.
         toc_lines titles ! Suc i = ''* ['' @ titles ! i @ ''](#'' @ slug (titles ! i) @ '')'')
   \<and> (\<forall>i < length titles. \<forall>j < length titles.
         titles ! i = titles ! j \<longrightarrow> toc_lines titles ! Suc i = toc_lines titles ! Suc j)"
proof -
  have "slug title = slug_as_specified title"
    if "filter kept_in_slug (lower title) = [] \<or>
        (\<not> isspace (hd (filter kept_in_slug (lower title)))
          \<and> \<not> isspace (last (filter kept_in_slug (lower title))))"
    using strip_unchanged [OF that] by (simp add: slug_def slug_as_specified_def)
  moreover have "length (toc_lines titles) = Suc (length titles)"
    by (simp add: toc_lines_def)
  moreover have "\<forall>i < length titles.
      toc_lines titles ! Suc i = ''* ['' @ titles ! i @ ''](#'' @ slug (titles ! i) @ '')''"
    by (simp add: toc_lines_def)
  ultimately show ?thesis by simp
qed

theorem slug_and_toc_witness:
  "slug ''My Page'' = ''my-page'' \<and> slug_as_specified ''My Page'' = ''my-page''
   \<and> toc_lines [''My Page'', ''My Page''] ! 1 = ''* [My Page](#my-page)''
   \<and> toc_lines [''My Page'', ''My Page''] ! 2 = ''* [My Page](#my-page)''"
proof -
  note t = slug_and_toc [of "''My Page''" "[''My Page'', ''My Page'']"]
  have kept: "filter kept_in_slug (lower ''My Page'') = ''my page''"
    by code_simp
  have s: "slug_as_specified ''My Page'' = ''my-page''"
    by code_simp
  have sp: "\<not> isspace CHR ''m''" "\<not> isspace CHR ''e''"
    by code_simp+
  from t [THEN conjunct1] kept sp s have a: "slug ''My Page'' = ''my-page''"
    by simp
  have l: "(0::nat) < length [''My Page'', ''My Page'']" "(1::nat) < length [''My Page'', ''My Page'']"
    by simp_all
  from t [THEN conjunct2, THEN conjunct2, THEN conjunct1, rule_format, OF l(1)] a
  have b: "toc_lines [''My Page'', ''My Page''] ! 1 = ''* [My Page](#my-page)''"
    by simp
  from t [THEN conjunct2, THEN conjunct2, THEN conjunct2, rule_format, OF l(1) l(2)] b
  have c: "toc_lines [''My Page'', ''My Page''] ! 2 = ''* [My Page](#my-page)''"
    by (simp add: numeral_2_eq_2)
  from a s b c show ?thesis by simp
qed

section \<open>Properties of the loops over the content element\<close>

lemma map_of_overwrite:
  "map_of (map (\<lambda>(k, x). if k = a then (k, v) else (k, x)) attrs) b
     = (if b = a then map_option (\<lambda>x. v) (map_of attrs a) else map_of attrs b)"
  by (induction attrs) auto

lemma map_of_set_attr: "map_of (set_attr a v attrs) a = Some v"
  by (cases "map_of attrs a") (simp_all add: set_attr_def map_of_overwrite map_add_def)

lemma map_of_set_attr_other: "b \<noteq> a \<Longrightarrow> map_of (set_attr a v attrs) b = map_of attrs b"
  by (cases "map_of attrs a") (simp_all add: set_attr_def map_of_overwrite map_add_def split: option.splits)

lemma set_tag_attr_values:
  assumes "set_tag_attr nm a f nm' attrs w = (Inr attrs', w1)"
  shows "list_all2 (\<lambda>old new. \<exists>w1 w2. f old w1 = (Inr new, w2))
           (case (if nm' = nm then map_of attrs a else None) of None \<Rightarrow> [] | Some v \<Rightarrow> [v])
           (case (if nm' = nm then map_of attrs' a else None) of None \<Rightarrow> [] | Some v \<Rightarrow> [v])"
proof (cases "if nm' = nm then map_of attrs a else None")
  case None
  with assms have "attrs' = attrs" by (simp add: set_tag_attr_def)
  with None show ?thesis by (simp split: if_splits)
next
  case (Some old)
  then have eq: "nm' = nm" "map_of attrs a = Some old" by (simp_all split: if_splits)
  from assms eq obtain new where n: "f old w = (Inr new, w1)" "attrs' = set_attr a new attrs"
    by (cases "f old w"; cases "fst (f old w)") (simp_all add: set_tag_attr_def)
  from eq n have "\<exists>w1 w2. f old w1 = (Inr new, w2)" by blast
  with eq n show ?thesis by (simp add: map_of_set_attr)
qed

lemma for_each_tag_values:
  "for_each_tag nm a f ns w = (Inr ns', w') \<Longrightarrow>
   list_all2 (\<lambda>old new. \<exists>w1 w2. f old w1 = (Inr new, w2)) (attr_values nm a ns) (attr_values nm a ns')"
proof (induction nm a f ns w arbitrary: ns' w' rule: for_each_tag.induct)
  case (1 nm a f w)
  then show ?case by simp
next
  case (2 nm a f s ns w)
  from "2.prems" obtain ms where "for_each_tag nm a f ns w = (Inr ms, w')" "ns' = Text s # ms"
    by (simp split: prod.splits sum.splits)
  with "2.IH" show ?case by simp
next
  case (3 nm a f nm' attrs cs ns w)
  from "3.prems" obtain attrs' w1 cs' w2 ms where
    s: "set_tag_attr nm a f nm' attrs w = (Inr attrs', w1)"
    and c: "for_each_tag nm a f cs w1 = (Inr cs', w2)"
    and n: "for_each_tag nm a f ns w2 = (Inr ms, w')"
    and r: "ns' = Tag nm' attrs' cs' # ms"
    by (simp split: prod.splits sum.splits)
  have 1: "list_all2 (\<lambda>old new. \<exists>w1 w2. f old w1 = (Inr new, w2)) (attr_values nm a cs) (attr_values nm a cs')"
    using "3.IH"(1) [OF s [symmetric] refl c] .
  have 2: "list_all2 (\<lambda>old new. \<exists>w1 w2. f old w1 = (Inr new, w2)) (attr_values nm a ns) (attr_values nm a ms)"
    using "3.IH"(2) [OF s [symmetric] refl c [symmetric] refl n] .
  from set_tag_attr_values [OF s] 1 2 r show ?case
    by (simp add: list_all2_appendI)
qed

lemma find_all_children:
  "attr_values nm a cs = map (get_attr a) (filter (has_attr nm a) (concat (map (\<lambda>c. c # descendants c) cs)))"
proof (induction nm a cs rule: attr_values.induct)
  case (3 nm a nm' attrs cs ns)
  then show ?case by (auto split: option.splits)
qed simp_all

lemma attr_values_find_all:
  "attr_values nm a (children root) = map (get_attr a) (find_all nm a root)"
  by (cases root) (simp_all add: find_all_def find_all_children)

lemma set_tag_attr_rel:
  assumes "\<And>w. R w w" and "\<And>old w r w1. f old w = (r, w1) \<Longrightarrow> R w w1"
    and "set_tag_attr nm a f nm' attrs w = (r, w1)"
  shows "R w w1"
proof (cases "if nm' = nm then map_of attrs a else None")
  case None
  with assms(3) have "w1 = w" by (simp add: set_tag_attr_def)
  with assms(1) show ?thesis by simp
next
  case (Some old)
  obtain r' w' where f: "f old w = (r', w')" by (cases "f old w")
  with Some assms(3) have "w1 = w'"
    by (cases r') (simp_all add: set_tag_attr_def)
  with assms(2) [OF f] show ?thesis by simp
qed

lemma for_each_tag_rel:
  assumes "for_each_tag nm a f ns w = (r, w')"
    and "\<And>w. R w w"
    and "\<And>w1 w2 w3. R w1 w2 \<Longrightarrow> R w2 w3 \<Longrightarrow> R w1 w3"
    and "\<And>old w r w1. f old w = (r, w1) \<Longrightarrow> R w w1"
  shows "R w w'"
  using assms
proof (induction nm a f ns w arbitrary: r w' rule: for_each_tag.induct)
  case (1 nm a f w)
  then show ?case by simp
next
  case (2 nm a f s ns w)
  obtain r1 w1 where e: "for_each_tag nm a f ns w = (r1, w1)" by (cases "for_each_tag nm a f ns w")
  with "2.prems"(1) have "w' = w1" by (cases r1) simp_all
  with "2.IH" [OF e "2.prems"(2,3,4)] show ?case by simp
next
  case (3 nm a f nm' attrs cs ns w)
  note rfl = "3.prems"(2) and trn = "3.prems"(3) and stp = "3.prems"(4)
  obtain r1 w1 where s: "set_tag_attr nm a f nm' attrs w = (r1, w1)"
    by (cases "set_tag_attr nm a f nm' attrs w")
  have R1: "R w w1"
    by (rule set_tag_attr_rel [where R = R and f = f, OF rfl _ s]) (erule stp)
  show ?case
  proof (cases r1)
    case (Inl e)
    with s "3.prems"(1) have "w' = w1" by simp
    with R1 show ?thesis by simp
  next
    case (Inr attrs')
    obtain r2 w2 where c: "for_each_tag nm a f cs w1 = (r2, w2)"
      by (cases "for_each_tag nm a f cs w1")
    from s Inr have s': "(Inr attrs', w1) = set_tag_attr nm a f nm' attrs w" by simp
    have R2: "R w1 w2" using "3.IH"(1) [OF s' refl c rfl trn stp] .
    show ?thesis
    proof (cases r2)
      case (Inl e)
      with s Inr c "3.prems"(1) have "w' = w2" by simp
      with R1 R2 trn show ?thesis by blast
    next
      case (Inr cs')
      obtain r3 w3 where n: "for_each_tag nm a f ns w2 = (r3, w3)"
        by (cases "for_each_tag nm a f ns w2")
      from c Inr have c': "(Inr cs', w2) = for_each_tag nm a f cs w1" by simp
      have R3: "R w2 w3" using "3.IH"(2) [OF s' refl c' refl n rfl trn stp] .
      from s \<open>r1 = Inr attrs'\<close> c Inr n "3.prems"(1) have "w' = w3"
        by (cases r3) simp_all
      with R1 R2 R3 trn show ?thesis by blast
    qed
  qed
qed

lemma set_tag_attr_fst:
  assumes "\<And>old w v. fst (f old w) = fst (g old v)"
  shows "fst (set_tag_attr nm a f nm' attrs w) = fst (set_tag_attr nm a g nm' attrs v)"
proof (cases "if nm' = nm then map_of attrs a else None")
  case None
  then show ?thesis by (simp add: set_tag_attr_def)
next
  case (Some old)
  obtain r w1 where f: "f old w = (r, w1)" by (cases "f old w")
  obtain q v1 where g: "g old v = (q, v1)" by (cases "g old v")
  from assms [of old w v] f g have "q = r" by simp
  with Some f g show ?thesis by (cases r) (simp_all add: set_tag_attr_def)
qed

lemma for_each_tag_fst:
  assumes "\<And>old w v. fst (f old w) = fst (g old v)"
  shows "fst (for_each_tag nm a f ns w) = fst (for_each_tag nm a g ns v)"
  using assms
proof (induction nm a f ns w arbitrary: v rule: for_each_tag.induct)
  case (1 nm a f w)
  then show ?case by simp
next
  case (2 nm a f s ns w)
  obtain r1 w1 where e: "for_each_tag nm a f ns w = (r1, w1)" by (cases "for_each_tag nm a f ns w")
  obtain q1 v1 where e': "for_each_tag nm a g ns v = (q1, v1)" by (cases "for_each_tag nm a g ns v")
  from "2.IH" [OF "2.prems", of v] e e' have "q1 = r1" by simp
  with e e' show ?case by (cases r1) simp_all
next
  case (3 nm a f nm' attrs cs ns w)
  note all = "3.prems"
  obtain r1 w1 where s: "set_tag_attr nm a f nm' attrs w = (r1, w1)"
    by (cases "set_tag_attr nm a f nm' attrs w")
  obtain q1 v1 where s': "set_tag_attr nm a g nm' attrs v = (q1, v1)"
    by (cases "set_tag_attr nm a g nm' attrs v")
  from set_tag_attr_fst [of f g nm a nm' attrs w v, OF all] s s' have q1: "q1 = r1" by simp
  show ?case
  proof (cases r1)
    case (Inl e)
    with s s' q1 show ?thesis by simp
  next
    case (Inr attrs')
    obtain r2 w2 where c: "for_each_tag nm a f cs w1 = (r2, w2)"
      by (cases "for_each_tag nm a f cs w1")
    obtain q2 v2 where c': "for_each_tag nm a g cs v1 = (q2, v2)"
      by (cases "for_each_tag nm a g cs v1")
    from s Inr have sy: "(Inr attrs', w1) = set_tag_attr nm a f nm' attrs w" by simp
    from "3.IH"(1) [OF sy refl all, of v1] c c' have q2: "q2 = r2" by simp
    show ?thesis
    proof (cases r2)
      case (Inl e)
      with s s' q1 \<open>r1 = Inr attrs'\<close> c c' q2 show ?thesis by simp
    next
      case (Inr cs')
      obtain r3 w3 where n: "for_each_tag nm a f ns w2 = (r3, w3)"
        by (cases "for_each_tag nm a f ns w2")
      obtain q3 v3 where n': "for_each_tag nm a g ns v2 = (q3, v3)"
        by (cases "for_each_tag nm a g ns v2")
      from c Inr have cy: "(Inr cs', w2) = for_each_tag nm a f cs w1" by simp
      from "3.IH"(2) [OF sy refl cy refl all, of v2] n n' have "q3 = r3" by simp
      with s s' q1 \<open>r1 = Inr attrs'\<close> c c' q2 Inr n n' show ?thesis
        by (cases r3) simp_all
    qed
  qed
qed

lemma set_tag_attr_other:
  assumes "set_tag_attr nm a f nm' attrs w = (Inr attrs', w1)" and "nm' \<noteq> nm"
  shows "attrs' = attrs"
  using assms by (simp add: set_tag_attr_def)

lemma for_each_tag_other_values:
  assumes "for_each_tag nm a f ns w = (Inr ns', w')" and "nm2 \<noteq> nm"
  shows "attr_values nm2 a2 ns' = attr_values nm2 a2 ns"
  using assms
proof (induction nm a f ns w arbitrary: ns' w' rule: for_each_tag.induct)
  case (1 nm a f w)
  then show ?case by simp
next
  case (2 nm a f s ns w)
  from "2.prems"(1) obtain ms where "for_each_tag nm a f ns w = (Inr ms, w')" "ns' = Text s # ms"
    by (simp split: prod.splits sum.splits)
  with "2.IH" "2.prems"(2) show ?case by simp
next
  case (3 nm a f nm' attrs cs ns w)
  from "3.prems"(1) obtain attrs' w1 cs' w2 ms where
    s: "set_tag_attr nm a f nm' attrs w = (Inr attrs', w1)"
    and c: "for_each_tag nm a f cs w1 = (Inr cs', w2)"
    and n: "for_each_tag nm a f ns w2 = (Inr ms, w')"
    and r: "ns' = Tag nm' attrs' cs' # ms"
    by (simp split: prod.splits sum.splits)
  have 1: "attr_values nm2 a2 cs' = attr_values nm2 a2 cs"
    using "3.IH"(1) [OF s [symmetric] refl c "3.prems"(2)] .
  have 2: "attr_values nm2 a2 ms = attr_values nm2 a2 ns"
    using "3.IH"(2) [OF s [symmetric] refl c [symmetric] refl n "3.prems"(2)] .
  have "nm' = nm2 \<Longrightarrow> attrs' = attrs"
    using set_tag_attr_other [OF s] "3.prems"(2) by blast
  with 1 2 r show ?case by simp
qed

section \<open>Properties of the world\<close>

lemma fetched_pages_append: "fetched_pages (xs @ ys) = fetched_pages xs @ fetched_pages ys"
  by (induction xs rule: fetched_pages.induct) simp_all

lemma fetched_images_append: "fetched_images (xs @ ys) = fetched_images xs @ fetched_images ys"
  by (induction xs rule: fetched_images.induct) simp_all

lemma events_emit: "events (emit e w) = events w @ [e]"
  by (simp add: emit_def)

lemma fs_emit: "fs (emit e w) = fs w"
  by (simp add: emit_def)

lemma exists_emit: "os_path_exists (emit e w) p = os_path_exists w p"
  by (simp add: os_path_exists_def fs_emit)

lemma cache_respected_refl: "cache_respected cfg L w w"
  by (simp add: cache_respected_def)

lemma cache_respected_trans:
  assumes "cache_respected cfg L w1 w2" and "cache_respected cfg L w2 w3"
  shows "cache_respected cfg L w1 w3"
proof -
  from assms(1) obtain n1 where 1: "events w2 = events w1 @ n1" "fetched_pages n1 = []"
    "\<forall>u \<in> set (fetched_images n1). \<forall>fname. img_filename L u = Inr fname
        \<longrightarrow> \<not> os_path_exists w1 (img_fs_path cfg fname)"
    and f1: "\<forall>p. os_path_exists w1 p \<longrightarrow> fs w2 p = fs w1 p"
    unfolding cache_respected_def by blast
  from assms(2) obtain n2 where 2: "events w3 = events w2 @ n2" "fetched_pages n2 = []"
    "\<forall>u \<in> set (fetched_images n2). \<forall>fname. img_filename L u = Inr fname
        \<longrightarrow> \<not> os_path_exists w2 (img_fs_path cfg fname)"
    and f2: "\<forall>p. os_path_exists w2 p \<longrightarrow> fs w3 p = fs w2 p"
    unfolding cache_respected_def by blast
  have keep: "os_path_exists w1 p \<Longrightarrow> os_path_exists w2 p" for p
    using f1 by (simp add: os_path_exists_def)
  have a: "events w3 = events w1 @ (n1 @ n2)" using 1(1) 2(1) by simp
  have b: "fetched_pages (n1 @ n2) = []" using 1(2) 2(2) by (simp add: fetched_pages_append)
  have c: "\<forall>u \<in> set (fetched_images (n1 @ n2)). \<forall>fname. img_filename L u = Inr fname
        \<longrightarrow> \<not> os_path_exists w1 (img_fs_path cfg fname)"
    using 1(3) 2(3) keep by (auto simp: fetched_images_append)
  have d: "\<forall>p. os_path_exists w1 p \<longrightarrow> fs w3 p = fs w1 p"
    using f1 f2 keep by simp
  from a b c d show ?thesis unfolding cache_respected_def by blast
qed

lemma cache_respected_emit:
  assumes "fetched_pages [e] = []" and "fetched_images [e] = []"
  shows "cache_respected cfg L w (emit e w)"
  unfolding cache_respected_def using assms by (simp add: events_emit fs_emit)

lemma cache_respected_makedirs:
  assumes "\<not> os_path_exists w p"
  shows "cache_respected cfg L w (os_makedirs p w)"
  unfolding cache_respected_def using assms by (auto simp: os_makedirs_def os_path_exists_def)

lemma download_image_events:
  "\<exists>new. events (download_image net u p w) = events w @ new \<and> fetched_pages new = []
      \<and> set (fetched_images new) \<subseteq> {u}"
  by (cases "image_get net (events (emit (Downloading_image u) w)) u")
    (simp_all add: download_image_def Let_def events_emit write_file_def)

lemma download_image_fs: "q \<noteq> p \<Longrightarrow> fs (download_image net u p w) q = fs w q"
  by (cases "image_get net (events (emit (Downloading_image u) w)) u")
    (simp_all add: download_image_def Let_def fs_emit write_file_def)

lemma cache_respected_download:
  assumes "img_filename L u = Inr fname" and "\<not> os_path_exists w (img_fs_path cfg fname)"
  shows "cache_respected cfg L w (download_image net u (img_fs_path cfg fname) w)"
proof -
  from download_image_events [of net u "img_fs_path cfg fname" w]
  obtain new where n: "events (download_image net u (img_fs_path cfg fname) w) = events w @ new"
    "fetched_pages new = []" "set (fetched_images new) \<subseteq> {u}" by blast
  have a: "\<forall>v \<in> set (fetched_images new). \<forall>g. img_filename L v = Inr g
        \<longrightarrow> \<not> os_path_exists w (img_fs_path cfg g)"
  proof (intro ballI allI impI)
    fix v g
    assume "v \<in> set (fetched_images new)" and g: "img_filename L v = Inr g"
    with n(3) have "v = u" by blast
    with g assms(1) have "g = fname" by simp
    with assms(2) show "\<not> os_path_exists w (img_fs_path cfg g)" by simp
  qed
  have b: "\<forall>p. os_path_exists w p \<longrightarrow> fs (download_image net u (img_fs_path cfg fname) w) p = fs w p"
  proof (intro allI impI)
    fix p
    assume "os_path_exists w p"
    with assms(2) have "p \<noteq> img_fs_path cfg fname" by blast
    then show "fs (download_image net u (img_fs_path cfg fname) w) p = fs w p"
      by (rule download_image_fs)
  qed
  show ?thesis
    unfolding cache_respected_def
  proof (intro conjI exI)
    show "events (download_image net u (img_fs_path cfg fname) w) = events w @ new" by (rule n(1))
    show "fetched_pages new = []" by (rule n(2))
    show "\<forall>v \<in> set (fetched_images new). \<forall>g. img_filename L v = Inr g
        \<longrightarrow> \<not> os_path_exists w (img_fs_path cfg g)" by (rule a)
    show "\<forall>p. os_path_exists w p \<longrightarrow> fs (download_image net u (img_fs_path cfg fname) w) p = fs w p"
      by (rule b)
  qed
qed

lemma cache_respected_localize_image:
  assumes "localize_image cfg L net url src w = (r, w1)"
  shows "cache_respected cfg L w w1"
proof (cases "urljoin (bracketed_host_ok L) url src")
  case (Inl e)
  with assms show ?thesis by (simp add: localize_image_def cache_respected_refl)
next
  case (Inr img_url)
  show ?thesis
  proof (cases "img_filename L img_url")
    case (Inl e)
    with Inr assms show ?thesis by (simp add: localize_image_def cache_respected_refl)
  next
    case fn: (Inr fname)
    show ?thesis
    proof (cases "os_path_exists w (img_fs_path cfg fname)")
      case True
      with Inr fn assms show ?thesis
        by (simp add: localize_image_def img_fs_path_def cache_respected_refl)
    next
      case False
      with Inr fn assms have "w1 = download_image net img_url (img_fs_path cfg fname) w"
        by (simp add: localize_image_def img_fs_path_def)
      with cache_respected_download [OF fn False] show ?thesis by simp
    qed
  qed
qed

lemma cache_respected_select_content:
  assumes "select_content cfg L url soup w = (r, w1)"
  shows "cache_respected cfg L w w1"
proof -
  have 1: "cache_respected cfg L w (emit (Selector_warning url) w)"
    by (rule cache_respected_emit) simp_all
  have 2: "cache_respected cfg L (emit (Selector_warning url) w)
             (emit (No_content_error url) (emit (Selector_warning url) w))"
    by (rule cache_respected_emit) simp_all
  note 3 = cache_respected_trans [OF 1 2]
  from assms 1 3 show ?thesis
    by (auto simp: select_content_def cache_respected_refl split: sum.splits option.splits)
qed

lemma cache_respected_images_dir: "cache_respected cfg L w (images_dir_made cfg w)"
  by (simp add: images_dir_made_def cache_respected_refl cache_respected_makedirs)

lemma cache_respected_links:
  assumes "for_each_tag ''a'' ''href'' (absolute_href L url) ns w = (r, w')"
  shows "cache_respected cfg L w w'"
proof (rule for_each_tag_rel [OF assms])
  show "cache_respected cfg L w w" for w by (rule cache_respected_refl)
  show "cache_respected cfg L w1 w3"
    if "cache_respected cfg L w1 w2" "cache_respected cfg L w2 w3" for w1 w2 w3
    using that by (rule cache_respected_trans)
  show "cache_respected cfg L w w1" if "absolute_href L url old w = (r, w1)" for old w r w1
    using that by (simp add: absolute_href_def cache_respected_refl)
qed

lemma cache_respected_images:
  assumes "for_each_tag ''img'' ''src'' (localize_image cfg L net url) ns w = (r, w')"
  shows "cache_respected cfg L w w'"
proof (rule for_each_tag_rel [OF assms])
  show "cache_respected cfg L w w" for w by (rule cache_respected_refl)
  show "cache_respected cfg L w1 w3"
    if "cache_respected cfg L w1 w2" "cache_respected cfg L w2 w3" for w1 w2 w3
    using that by (rule cache_respected_trans)
  show "cache_respected cfg L w w1" if "localize_image cfg L net url old w = (r, w1)" for old w r w1
    using that by (rule cache_respected_localize_image)
qed

text \<open>The steps of \<open>localized_content\<close>, one after the other.\<close>

lemma localized_content_steps:
  assumes "localized_content cfg L net url soup w = (r, w')"
  obtains (raised_select) e where "select_content cfg L url soup w = (Inl e, w')" "r = Inl e"
  | (nothing) "select_content cfg L url soup w = (Inr None, w')" "r = Inr None"
  | (raised_links) c w1 e where "select_content cfg L url soup w = (Inr (Some c), w1)"
      "for_each_tag ''a'' ''href'' (absolute_href L url) (children c) w1 = (Inl e, w')" "r = Inl e"
  | (raised_images) c w1 cs w2 e where "select_content cfg L url soup w = (Inr (Some c), w1)"
      "for_each_tag ''a'' ''href'' (absolute_href L url) (children c) w1 = (Inr cs, w2)"
      "for_each_tag ''img'' ''src'' (localize_image cfg L net url) cs (images_dir_made cfg w2) = (Inl e, w')"
      "r = Inl e"
  | (finished) c w1 cs w2 cs' where "select_content cfg L url soup w = (Inr (Some c), w1)"
      "for_each_tag ''a'' ''href'' (absolute_href L url) (children c) w1 = (Inr cs, w2)"
      "for_each_tag ''img'' ''src'' (localize_image cfg L net url) cs (images_dir_made cfg w2) = (Inr cs', w')"
      "r = Inr (Some (with_children c cs'))"
proof -
  obtain r0 w1 where s: "select_content cfg L url soup w = (r0, w1)"
    by (cases "select_content cfg L url soup w")
  show thesis
  proof (cases r0)
    case (Inl e)
    with s assms have "select_content cfg L url soup w = (Inl e, w')" "r = Inl e"
      by (simp_all add: localized_content_def)
    then show ?thesis by (rule raised_select)
  next
    case (Inr oc)
    show ?thesis
    proof (cases oc)
      case None
      with s Inr assms have "select_content cfg L url soup w = (Inr None, w')" "r = Inr None"
        by (simp_all add: localized_content_def)
      then show ?thesis by (rule nothing)
    next
      case (Some c)
      with s Inr have s': "select_content cfg L url soup w = (Inr (Some c), w1)" by simp
      obtain r1 w2 where l: "for_each_tag ''a'' ''href'' (absolute_href L url) (children c) w1 = (r1, w2)"
        by (cases "for_each_tag ''a'' ''href'' (absolute_href L url) (children c) w1")
      show ?thesis
      proof (cases r1)
        case (Inl e)
        with s' l assms have
          "for_each_tag ''a'' ''href'' (absolute_href L url) (children c) w1 = (Inl e, w')" "r = Inl e"
          by (simp_all add: localized_content_def)
        with s' show ?thesis by (rule raised_links)
      next
        case cs: (Inr cs)
        with l have l': "for_each_tag ''a'' ''href'' (absolute_href L url) (children c) w1 = (Inr cs, w2)"
          by simp
        obtain r2 w3 where i: "for_each_tag ''img'' ''src'' (localize_image cfg L net url) cs
              (images_dir_made cfg w2) = (r2, w3)"
          by (cases "for_each_tag ''img'' ''src'' (localize_image cfg L net url) cs (images_dir_made cfg w2)")
        then have i': "for_each_tag ''img'' ''src'' (localize_image cfg L net url) cs
              (images_dir_made cfg w2) = (r2, w3)"
          by (simp add: images_dir_made_def)
        show ?thesis
        proof (cases r2)
          case (Inl e)
          with s' l' i' assms have "w3 = w'" "r = Inl e"
            by (simp_all add: localized_content_def)
          with i Inl have "for_each_tag ''img'' ''src'' (localize_image cfg L net url) cs
              (images_dir_made cfg w2) = (Inl e, w')" by simp
          with s' l' show ?thesis using \<open>r = Inl e\<close> by (rule raised_images)
        next
          case (Inr cs')
          with s' l' i' assms have "w3 = w'" "r = Inr (Some (with_children c cs'))"
            by (simp_all add: localized_content_def)
          with i Inr have "for_each_tag ''img'' ''src'' (localize_image cfg L net url) cs
              (images_dir_made cfg w2) = (Inr cs', w')" by simp
          with s' l' show ?thesis using \<open>r = Inr (Some (with_children c cs'))\<close> by (rule finished)
        qed
      qed
    qed
  qed
qed

lemma cache_respected_localized_content:
  assumes "localized_content cfg L net url soup w = (r, w')"
  shows "cache_respected cfg L w w'"
  using assms
proof (cases rule: localized_content_steps)
  case (raised_select e)
  then show ?thesis by (simp add: cache_respected_select_content)
next
  case nothing
  then show ?thesis by (simp add: cache_respected_select_content)
next
  case (raised_links c w1 e)
  from cache_respected_select_content [OF raised_links(1)] cache_respected_links [OF raised_links(2)]
  show ?thesis by (rule cache_respected_trans)
next
  case (raised_images c w1 cs w2 e)
  from cache_respected_select_content [OF raised_images(1)] cache_respected_links [OF raised_images(2)]
  have "cache_respected cfg L w w2" by (rule cache_respected_trans)
  from this cache_respected_images_dir have "cache_respected cfg L w (images_dir_made cfg w2)"
    by (rule cache_respected_trans)
  from this cache_respected_images [OF raised_images(3)] show ?thesis
    by (rule cache_respected_trans)
next
  case (finished c w1 cs w2 cs')
  from cache_respected_select_content [OF finished(1)] cache_respected_links [OF finished(2)]
  have "cache_respected cfg L w w2" by (rule cache_respected_trans)
  from this cache_respected_images_dir have "cache_respected cfg L w (images_dir_made cfg w2)"
    by (rule cache_respected_trans)
  from this cache_respected_images [OF finished(3)] show ?thesis
    by (rule cache_respected_trans)
qed

lemma cache_respected_get_markdown_content:
  assumes "get_markdown_content cfg L net url html w = (r, w')"
  shows "cache_respected cfg L w w'"
proof -
  obtain r1 w1 where l: "localized_content cfg L net url (html_parser L html) w = (r1, w1)"
    by (cases "localized_content cfg L net url (html_parser L html) w")
  note 1 = cache_respected_localized_content [OF l]
  have 2: "cache_respected cfg L w1 (emit (Processing_error url) w1)"
    by (rule cache_respected_emit) simp_all
  show ?thesis
  proof (cases r1)
    case (Inl e)
    with l assms have "w' = emit (Processing_error url) w1" by (simp add: get_markdown_content_def)
    with cache_respected_trans [OF 1 2] show ?thesis by simp
  next
    case (Inr oc)
    with l assms have "w' = w1" by (cases oc) (simp_all add: get_markdown_content_def)
    with 1 show ?thesis by simp
  qed
qed

section \<open>The page result does not depend on the network\<close>

lemma localize_image_fst:
  "fst (localize_image cfg L net url src w) = fst (localize_image cfg L net' url src w')"
  by (simp add: localize_image_def split: sum.splits)

lemma select_content_fst:
  "fst (select_content cfg L url soup w) = fst (select_content cfg L url soup w')"
  by (simp add: select_content_def split: sum.splits option.splits)

lemma localized_content_fst:
  "fst (localized_content cfg L net url soup w) = fst (localized_content cfg L net' url soup w')"
proof -
  obtain r0 w1 where s: "select_content cfg L url soup w = (r0, w1)"
    by (cases "select_content cfg L url soup w")
  obtain q0 v1 where s': "select_content cfg L url soup w' = (q0, v1)"
    by (cases "select_content cfg L url soup w'")
  from select_content_fst [of cfg L url soup w w'] s s' have q0: "q0 = r0" by simp
  show ?thesis
  proof (cases r0)
    case (Inl e)
    with s s' q0 show ?thesis by (simp add: localized_content_def)
  next
    case (Inr oc)
    show ?thesis
    proof (cases oc)
      case None
      with s s' q0 Inr show ?thesis by (simp add: localized_content_def)
    next
      case (Some c)
      obtain r1 w2 where l: "for_each_tag ''a'' ''href'' (absolute_href L url) (children c) w1 = (r1, w2)"
        by (cases "for_each_tag ''a'' ''href'' (absolute_href L url) (children c) w1")
      obtain q1 v2 where l': "for_each_tag ''a'' ''href'' (absolute_href L url) (children c) v1 = (q1, v2)"
        by (cases "for_each_tag ''a'' ''href'' (absolute_href L url) (children c) v1")
      have "fst (for_each_tag ''a'' ''href'' (absolute_href L url) (children c) w1)
          = fst (for_each_tag ''a'' ''href'' (absolute_href L url) (children c) v1)"
        by (rule for_each_tag_fst) (simp add: absolute_href_def)
      with l l' have q1: "q1 = r1" by simp
      show ?thesis
      proof (cases r1)
        case (Inl e)
        with s s' q0 Inr Some l l' q1 show ?thesis by (simp add: localized_content_def)
      next
        case cs: (Inr cs)
        have "fst (for_each_tag ''img'' ''src'' (localize_image cfg L net url) cs (images_dir_made cfg w2))
            = fst (for_each_tag ''img'' ''src'' (localize_image cfg L net' url) cs (images_dir_made cfg v2))"
          by (rule for_each_tag_fst) (rule localize_image_fst)
        moreover obtain r2 w3 where
          "for_each_tag ''img'' ''src'' (localize_image cfg L net url) cs (images_dir_made cfg w2) = (r2, w3)"
          by (cases "for_each_tag ''img'' ''src'' (localize_image cfg L net url) cs (images_dir_made cfg w2)")
        moreover obtain q2 v3 where
          "for_each_tag ''img'' ''src'' (localize_image cfg L net' url) cs (images_dir_made cfg v2) = (q2, v3)"
          by (cases "for_each_tag ''img'' ''src'' (localize_image cfg L net' url) cs (images_dir_made cfg v2)")
        ultimately show ?thesis
          using s s' q0 Inr Some l l' q1 cs
          by (simp add: localized_content_def split: sum.splits)
      qed
    qed
  qed
qed

lemma get_markdown_content_fst:
  "fst (get_markdown_content cfg L net url html w) = fst (get_markdown_content cfg L net' url html w')"
proof -
  obtain r w1 where a: "localized_content cfg L net url (html_parser L html) w = (r, w1)"
    by (cases "localized_content cfg L net url (html_parser L html) w")
  obtain q v1 where b: "localized_content cfg L net' url (html_parser L html) w' = (q, v1)"
    by (cases "localized_content cfg L net' url (html_parser L html) w'")
  from localized_content_fst [of cfg L net url "html_parser L html" w net' w'] a b
  have "q = r" by simp
  with a b show ?thesis
    by (simp add: get_markdown_content_def split: sum.splits option.splits)
qed

section \<open>The image cache\<close>

text \<open>
  C3: if a file already exists at the cache path of an image, no request for that image
  is made and the file is left as it is. For every page: among the requests that its
  processing adds there is none for an image whose file was there before, and every
  path that was there before holds what it held.
\<close>

theorem cached_images_are_not_fetched:
  assumes "get_markdown_content cfg L net url html w = (r, w')"
  shows "(\<exists>new. events w' = events w @ new
            \<and> (\<forall>u \<in> set (fetched_images new). \<forall>fname. img_filename L u = Inr fname
                  \<longrightarrow> \<not> os_path_exists w (img_fs_path cfg fname)))
         \<and> (\<forall>p. os_path_exists w p \<longrightarrow> fs w' p = fs w p)"
  using cache_respected_get_markdown_content [OF assms] unfolding cache_respected_def by blast

theorem cached_images_are_not_fetched_witness:
  "os_path_exists cached_world (img_fs_path demo_cfg ''0cc175b9c0f1b6a831c399e269772661.png'')
   \<and> ''https://site/a.png'' \<notin> set (fetched_images (events (snd
         (get_markdown_content demo_cfg demo_libs demo_net ''https://h/guide'' ''guide'' cached_world))))
   \<and> fs (snd (get_markdown_content demo_cfg demo_libs demo_net ''https://h/guide'' ''guide'' cached_world))
         (img_fs_path demo_cfg ''0cc175b9c0f1b6a831c399e269772661.png'') = Some (File ''old'')"
proof -
  let ?p = "img_fs_path demo_cfg ''0cc175b9c0f1b6a831c399e269772661.png''"
  let ?run = "get_markdown_content demo_cfg demo_libs demo_net ''https://h/guide'' ''guide'' cached_world"
  have ex: "os_path_exists cached_world ?p" by code_simp
  have old: "fs cached_world ?p = Some (File ''old'')" by code_simp
  have nm: "img_filename demo_libs ''https://site/a.png'' = Inr ''0cc175b9c0f1b6a831c399e269772661.png''"
    by code_simp
  have ev: "events cached_world = []" by (simp add: cached_world_def)
  have run: "?run = (fst ?run, snd ?run)" by simp
  from cached_images_are_not_fetched [OF run] ev obtain new where
    n: "events (snd ?run) = new"
    and f: "\<forall>u \<in> set (fetched_images new). \<forall>fname. img_filename demo_libs u = Inr fname
          \<longrightarrow> \<not> os_path_exists cached_world (img_fs_path demo_cfg fname)"
    and k: "\<forall>p. os_path_exists cached_world p \<longrightarrow> fs (snd ?run) p = fs cached_world p"
    by auto
  from f nm ex have "''https://site/a.png'' \<notin> set (fetched_images new)" by blast
  moreover from k ex old have "fs (snd ?run) ?p = Some (File ''old'')" by simp
  ultimately show ?thesis using ex n by simp
qed

section \<open>Failed image downloads\<close>

lemma download_image_failed:
  assumes "image_get net (events (emit (Downloading_image u) w)) u = Image_raises
       \<or> (\<exists>status_code received broken.
             image_get net (events (emit (Downloading_image u) w)) u
               = Image_response status_code received broken \<and> status_code \<noteq> 200)"
  shows "fs (download_image net u p w) = fs w"
    and "fetched_images (events (download_image net u p w)) = fetched_images (events w) @ [u]"
  using assms
  by (auto simp: download_image_def Let_def fs_emit events_emit fetched_images_append)

text \<open>
  The two ways for a download to fail before the file is opened: when the request for
  an image raises, or is answered with a status other than 200, the reference is still
  rewritten to the local relative path, at which there is still no file, the request
  was made once, and the page gives the Markdown block it gives with any other network
  and file system.
\<close>

theorem failed_download_is_not_fatal:
  assumes "urljoin (bracketed_host_ok L) url src = Inr img_url"
    and "img_filename L img_url = Inr fname"
    and "\<not> os_path_exists w (img_fs_path cfg fname)"
    and "image_get net (events (emit (Downloading_image img_url) w)) img_url = Image_raises
       \<or> (\<exists>status_code received broken.
             image_get net (events (emit (Downloading_image img_url) w)) img_url
               = Image_response status_code received broken \<and> status_code \<noteq> 200)"
  shows "fst (localize_image cfg L net url src w) = Inr (os_path_join (IMAGES_DIR cfg) fname)
     \<and> \<not> os_path_exists (snd (localize_image cfg L net url src w)) (img_fs_path cfg fname)
     \<and> fetched_images (events (snd (localize_image cfg L net url src w)))
          = fetched_images (events w) @ [img_url]
     \<and> fst (get_markdown_content cfg L net page_url html w1)
          = fst (get_markdown_content cfg L net' page_url html w2)"
proof -
  from assms(1,2,3) have s: "snd (localize_image cfg L net url src w)
      = download_image net img_url (img_fs_path cfg fname) w"
    by (simp add: localize_image_def img_fs_path_def)
  from assms(1,2) have a: "fst (localize_image cfg L net url src w) = Inr (os_path_join (IMAGES_DIR cfg) fname)"
    by (simp add: localize_image_def)
  from download_image_failed(1) [OF assms(4)] assms(3) s
  have b: "\<not> os_path_exists (snd (localize_image cfg L net url src w)) (img_fs_path cfg fname)"
    by (simp add: os_path_exists_def)
  from download_image_failed(2) [OF assms(4)] s
  have c: "fetched_images (events (snd (localize_image cfg L net url src w)))
          = fetched_images (events w) @ [img_url]" by simp
  from a b c get_markdown_content_fst [of cfg L net page_url html w1 net' w2] show ?thesis by simp
qed

theorem failed_download_is_not_fatal_witness:
  "fst (localize_image demo_cfg demo_libs (serve demo_pages (\<lambda>url. Image_response 404 ''no'' False))
          ''https://h/guide'' ''https://site/a.png'' empty_world)
     = Inr ''images/0cc175b9c0f1b6a831c399e269772661.png''
   \<and> fs (snd (localize_image demo_cfg demo_libs (serve demo_pages (\<lambda>url. Image_response 404 ''no'' False))
          ''https://h/guide'' ''https://site/a.png'' empty_world))
        ''out/images/0cc175b9c0f1b6a831c399e269772661.png'' = None
   \<and> fetched_images (events (snd (localize_image demo_cfg demo_libs
          (serve demo_pages (\<lambda>url. Image_response 404 ''no'' False))
          ''https://h/guide'' ''https://site/a.png'' empty_world))) = [''https://site/a.png'']
   \<and> fst (get_markdown_content demo_cfg demo_libs (serve demo_pages (\<lambda>url. Image_response 404 ''no'' False))
          ''https://h/guide'' ''guide'' empty_world)
     = fst (get_markdown_content demo_cfg demo_libs demo_net ''https://h/guide'' ''guide'' cached_world)"
proof -
  let ?net = "serve demo_pages (\<lambda>url. Image_response 404 ''no'' False)"
  have 1: "urljoin (bracketed_host_ok demo_libs) ''https://h/guide'' ''https://site/a.png''
      = Inr ''https://site/a.png''" by code_simp
  have 2: "img_filename demo_libs ''https://site/a.png'' = Inr ''0cc175b9c0f1b6a831c399e269772661.png''"
    by code_simp
  have p: "img_fs_path demo_cfg ''0cc175b9c0f1b6a831c399e269772661.png''
      = ''out/images/0cc175b9c0f1b6a831c399e269772661.png''" by code_simp
  have 3: "\<not> os_path_exists empty_world (img_fs_path demo_cfg ''0cc175b9c0f1b6a831c399e269772661.png'')"
    by (simp add: os_path_exists_def empty_world_def)
  have 4: "image_get ?net (events (emit (Downloading_image ''https://site/a.png'') empty_world))
             ''https://site/a.png'' = Image_raises
       \<or> (\<exists>status_code received broken.
             image_get ?net (events (emit (Downloading_image ''https://site/a.png'') empty_world))
               ''https://site/a.png'' = Image_response status_code received broken \<and> status_code \<noteq> 200)"
    by (simp add: serve_def) blast
  have i: "os_path_join (IMAGES_DIR demo_cfg) ''0cc175b9c0f1b6a831c399e269772661.png''
      = ''images/0cc175b9c0f1b6a831c399e269772661.png''"
    by code_simp
  have e: "fetched_images (events empty_world) = []" by (simp add: empty_world_def)
  from failed_download_is_not_fatal [OF 1 2 3 4, of "''https://h/guide''" "''guide''" empty_world demo_net cached_world]
  show ?thesis
    by (simp add: p e os_path_exists_def i)
qed

text \<open>
  C6: after a failed download the image reference points at a local path where no file
  is. The code breaks this for a download that fails while the body of a 200 response
  is streamed: the file is opened before the stream is read and is not removed when the
  stream raises. The error is caught and logged and the reference is rewritten, but the
  part that arrived stays at the path, and the next reference to the image finds it
  there and requests nothing.
\<close>

theorem broken_stream_leaves_a_file:
  "Error_downloading_image ''https://site/a.png'' \<in> set (events (snd
       (localize_image demo_cfg demo_libs (serve demo_pages (\<lambda>url. Image_response 200 ''PN'' True))
          ''https://h/guide'' ''https://site/a.png'' empty_world)))
   \<and> fs (snd (localize_image demo_cfg demo_libs (serve demo_pages (\<lambda>url. Image_response 200 ''PN'' True))
          ''https://h/guide'' ''https://site/a.png'' empty_world))
        ''out/images/0cc175b9c0f1b6a831c399e269772661.png'' = Some (File ''PN'')
   \<and> fst (localize_image demo_cfg demo_libs (serve demo_pages (\<lambda>url. Image_response 200 ''PN'' True))
          ''https://h/guide'' ''https://site/a.png'' empty_world)
        = Inr ''images/0cc175b9c0f1b6a831c399e269772661.png''
   \<and> fetched_images (events (snd
       (localize_image demo_cfg demo_libs demo_net ''https://h/other'' ''https://site/a.png''
          (snd (localize_image demo_cfg demo_libs (serve demo_pages (\<lambda>url. Image_response 200 ''PN'' True))
                  ''https://h/guide'' ''https://site/a.png'' empty_world)))))
        = [''https://site/a.png'']
   \<and> fs (snd
       (localize_image demo_cfg demo_libs demo_net ''https://h/other'' ''https://site/a.png''
          (snd (localize_image demo_cfg demo_libs (serve demo_pages (\<lambda>url. Image_response 200 ''PN'' True))
                  ''https://h/guide'' ''https://site/a.png'' empty_world))))
        ''out/images/0cc175b9c0f1b6a831c399e269772661.png'' = Some (File ''PN'')"
  by code_simp


section \<open>The fallback to the body\<close>

lemma cache_respected_events:
  "cache_respected cfg L w w' \<Longrightarrow> set (events w) \<subseteq> set (events w')"
  unfolding cache_respected_def by auto

lemma markdown_block_not_empty: "markdown_block title url md \<noteq> []"
  by (simp add: markdown_block_def)

text \<open>
  C7, as stated: every page on which the selector matches nothing still gives a
  Markdown block. A document without a body element gives none: both diagnostics are
  printed and the page is left out.
\<close>

theorem no_body_no_markdown:
  "tag_select (CONTENT_SELECTOR demo_cfg) (demo_parser ''bare'') = Inr None
   \<and> fst (get_markdown_content demo_cfg demo_libs demo_net ''https://h/x'' ''bare'' empty_world) = None
   \<and> events (snd (get_markdown_content demo_cfg demo_libs demo_net ''https://h/x'' ''bare'' empty_world))
       = [Selector_warning ''https://h/x'', No_content_error ''https://h/x'']"
  by code_simp

text \<open>
  C7, amended: when the selector matches nothing and the document has a body element,
  the diagnostic is printed and the body is the content element; then either an
  exception is raised while the content is processed, which is logged and leaves the
  page out, or the page gives a block that is not empty: the title heading, the line of
  the original URL, the separator and the Markdown of the body.
\<close>

theorem fallback_to_body:
  assumes "select_one L (CONTENT_SELECTOR cfg) (html_parser L html) = Inr None"
    and "select_one L ''body'' (html_parser L html) = Inr (Some body)"
  shows "Selector_warning url \<in> set (events (snd (get_markdown_content cfg L net url html w)))
     \<and> ((fst (get_markdown_content cfg L net url html w) = None
           \<and> Processing_error url \<in> set (events (snd (get_markdown_content cfg L net url html w))))
        \<or> (\<exists>cs'. fst (localized_content cfg L net url (html_parser L html) w)
                    = Inr (Some (with_children body cs'))
              \<and> fst (get_markdown_content cfg L net url html w)
                  = Some (''# '' @ page_title (html_parser L html) @ newline @ newline
                          @ ''[Original URL: '' @ url @ '']'' @ newline @ newline
                          @ ''---'' @ newline @ newline
                          @ markdown_content L (with_children body cs') @ newline @ newline,
                          page_title (html_parser L html))
              \<and> (\<exists>block title. fst (get_markdown_content cfg L net url html w) = Some (block, title)
                     \<and> block \<noteq> [])))"
proof -
  let ?soup = "html_parser L html"
  obtain r w' where lc: "localized_content cfg L net url ?soup w = (r, w')"
    by (cases "localized_content cfg L net url ?soup w")
  from assms have sel: "select_content cfg L url ?soup w = (Inr (Some body), emit (Selector_warning url) w)"
    by (simp add: select_content_def)
  have warned: "Selector_warning url \<in> set (events w')"
    using lc
  proof (cases rule: localized_content_steps)
    case (raised_select e) with sel show ?thesis by simp
  next
    case nothing with sel show ?thesis by simp
  next
    case (raised_links c w1 e)
    with sel have "w1 = emit (Selector_warning url) w" by simp
    with cache_respected_events [OF cache_respected_links [OF raised_links(2), of cfg]]
    show ?thesis by (auto simp: events_emit)
  next
    case (raised_images c w1 cs w2 e)
    with sel have "w1 = emit (Selector_warning url) w" by simp
    with cache_respected_events [OF cache_respected_links [OF raised_images(2), of cfg]]
    have "Selector_warning url \<in> set (events w2)" by (auto simp: events_emit)
    with cache_respected_events [OF cache_respected_images_dir [of cfg L w2]]
    have "Selector_warning url \<in> set (events (images_dir_made cfg w2))" by blast
    with cache_respected_events [OF cache_respected_images [OF raised_images(3)]]
    show ?thesis by blast
  next
    case (finished c w1 cs w2 cs')
    with sel have "w1 = emit (Selector_warning url) w" by simp
    with cache_respected_events [OF cache_respected_links [OF finished(2), of cfg]]
    have "Selector_warning url \<in> set (events w2)" by (auto simp: events_emit)
    with cache_respected_events [OF cache_respected_images_dir [of cfg L w2]]
    have "Selector_warning url \<in> set (events (images_dir_made cfg w2))" by blast
    with cache_respected_events [OF cache_respected_images [OF finished(3)]]
    show ?thesis by blast
  qed
  have shape: "(\<exists>e. r = Inl e) \<or> (\<exists>cs'. r = Inr (Some (with_children body cs')))"
    using lc
  proof (cases rule: localized_content_steps)
    case (raised_select e) then show ?thesis by simp
  next
    case nothing with sel show ?thesis by simp
  next
    case (raised_links c w1 e) then show ?thesis by simp
  next
    case (raised_images c w1 cs w2 e) then show ?thesis by simp
  next
    case (finished c w1 cs w2 cs')
    with sel have "c = body" by simp
    with finished(4) show ?thesis by blast
  qed
  from shape show ?thesis
  proof
    assume "\<exists>e. r = Inl e"
    then obtain e where "r = Inl e" ..
    with lc warned show ?thesis
      by (simp add: get_markdown_content_def events_emit)
  next
    assume "\<exists>cs'. r = Inr (Some (with_children body cs'))"
    then obtain cs' where "r = Inr (Some (with_children body cs'))" ..
    with lc warned show ?thesis
      by (simp add: get_markdown_content_def markdown_block_def) blast
  qed
qed

theorem fallback_to_body_witness:
  "Selector_warning ''https://h/x'' \<in> set (events (snd
       (get_markdown_content demo_cfg demo_libs demo_net ''https://h/x'' ''plain'' empty_world)))
   \<and> fst (get_markdown_content demo_cfg demo_libs demo_net ''https://h/x'' ''plain'' empty_world)
       = Some (''# index'' @ newline @ newline @ ''[Original URL: https://h/x]'' @ newline @ newline
               @ ''---'' @ newline @ newline @ ''<body>plain</body>'' @ newline @ newline, ''index'')"
proof -
  have 1: "select_one demo_libs (CONTENT_SELECTOR demo_cfg) (html_parser demo_libs ''plain'') = Inr None"
    by code_simp
  have 2: "select_one demo_libs ''body'' (html_parser demo_libs ''plain'')
      = Inr (Some (Tag ''body'' [] [Text ''plain'']))"
    by code_simp
  have 3: "fst (get_markdown_content demo_cfg demo_libs demo_net ''https://h/x'' ''plain'' empty_world)
       = Some (''# index'' @ newline @ newline @ ''[Original URL: https://h/x]'' @ newline @ newline
               @ ''---'' @ newline @ newline @ ''<body>plain</body>'' @ newline @ newline, ''index'')"
    by code_simp
  from fallback_to_body [OF 1 2, of "''https://h/x''" demo_net empty_world] 3
  show ?thesis by simp
qed

section \<open>The image references\<close>



section \<open>The links that are queued\<close>

lemma is_internal_link_iff:
  "is_internal_link cfg L u = Inr True \<longleftrightarrow>
     (\<exists>pu pb. urlparse (bracketed_host_ok L) u [] = Inr pu
        \<and> urlparse (bracketed_host_ok L) (BASE_URL cfg) [] = Inr pb
        \<and> netloc pu = netloc pb \<and> \<not> endswith (path pu) non_page_extensions)"
  by (auto simp: is_internal_link_def split: sum.splits)

lemma find_new_links_appends:
  assumes "find_new_links cfg L visited hrefs queue = (err, queue')"
  shows "\<exists>new. queue' = queue @ new
           \<and> (\<forall>u \<in> set new. u \<notin> visited \<and> u \<notin> set queue
                 \<and> (\<exists>href \<in> set hrefs. full_url_base cfg L href = Inr u
                       \<and> is_internal_link cfg L u = Inr True))"
  using assms
proof (induction hrefs arbitrary: queue)
  case Nil
  then show ?case by simp
next
  case (Cons href hrefs)
  show ?case
  proof (cases "full_url_base cfg L href")
    case (Inl e)
    with Cons.prems show ?thesis by simp
  next
    case (Inr u)
    show ?thesis
    proof (cases "is_internal_link cfg L u")
      case (Inl e)
      with Inr Cons.prems show ?thesis by simp
    next
      case i: (Inr internal)
      let ?q = "if internal \<and> u \<notin> visited \<and> u \<notin> set queue then queue @ [u] else queue"
      from Inr i Cons.prems have "find_new_links cfg L visited hrefs ?q = (err, queue')" by simp
      from Cons.IH [OF this] obtain new where n: "queue' = ?q @ new"
        "\<forall>v \<in> set new. v \<notin> visited \<and> v \<notin> set ?q
            \<and> (\<exists>h \<in> set hrefs. full_url_base cfg L h = Inr v \<and> is_internal_link cfg L v = Inr True)"
        by blast
      show ?thesis
      proof (cases "internal \<and> u \<notin> visited \<and> u \<notin> set queue")
        case True
        with n(1) have "queue' = queue @ (u # new)" by simp
        moreover from True n(2) Inr i have "\<forall>v \<in> set (u # new). v \<notin> visited \<and> v \<notin> set queue
            \<and> (\<exists>h \<in> set (href # hrefs). full_url_base cfg L h = Inr v \<and> is_internal_link cfg L v = Inr True)"
          by auto
        ultimately show ?thesis by blast
      next
        case False
        with n(1) have "queue' = queue @ new" by simp
        moreover from False n(2) have "\<forall>v \<in> set new. v \<notin> visited \<and> v \<notin> set queue
            \<and> (\<exists>h \<in> set (href # hrefs). full_url_base cfg L h = Inr v \<and> is_internal_link cfg L v = Inr True)"
          by auto
        ultimately show ?thesis by blast
      qed
    qed
  qed
qed

lemma find_new_links_complete:
  assumes "find_new_links cfg L visited hrefs queue = (None, queue')"
    and "href \<in> set hrefs" and "full_url_base cfg L href = Inr u"
    and "is_internal_link cfg L u = Inr True" and "u \<notin> visited"
  shows "u \<in> set queue'"
  using assms
proof (induction hrefs arbitrary: queue)
  case Nil
  then show ?case by simp
next
  case (Cons h hrefs)
  from Cons.prems(1) obtain v internal where
    v: "full_url_base cfg L h = Inr v" and i: "is_internal_link cfg L v = Inr internal"
    by (auto split: sum.splits)
  let ?q = "if internal \<and> v \<notin> visited \<and> v \<notin> set queue then queue @ [v] else queue"
  from v i Cons.prems(1) have run: "find_new_links cfg L visited hrefs ?q = (None, queue')" by simp
  from find_new_links_appends [OF run] have keep: "set ?q \<subseteq> set queue'" by auto
  show ?case
  proof (cases "href = h")
    case True
    with v i Cons.prems(3,4,5) have "u \<in> set ?q" by auto
    with keep show ?thesis by blast
  next
    case False
    with Cons.prems(2) have "href \<in> set hrefs" by simp
    from Cons.IH [OF run this Cons.prems(3,4,5)] show ?thesis .
  qed
qed

text \<open>
  C2, as stated: a discovered URL is queued if and only if it has a scheme and a host,
  its host is the root's host and its path has no denylisted extension. The check for
  a scheme and a host, \<open>is_valid\<close>, is never called: the link \<open>foo:////h/x\<close> on a page
  of the site \<open>https://h/\<close> is cleaned to \<open>//h/x\<close>, which has no scheme and is queued.
\<close>

theorem queued_without_scheme:
  "full_url_base demo_cfg demo_libs ''foo:////h/x'' = Inr ''//h/x''
   \<and> is_valid demo_libs ''//h/x'' = Inr False
   \<and> is_internal_link demo_cfg demo_libs ''//h/x'' = Inr True
   \<and> find_new_links demo_cfg demo_libs {''https://h/''}
        (map (get_attr ''href'') (find_all ''a'' ''href'' (demo_parser ''odd''))) []
       = (None, [''//h/x''])"
  by code_simp

text \<open>
  C2, amended: a discovered URL is queued if and only if its host (the \<open>netloc\<close> of the
  cleaned URL) equals the root's host exactly, its path does not end in one of the
  denylisted extensions, and it is neither visited nor queued already; no check for a
  scheme is made. So every out-of-domain URL is left out whatever its path, and every
  same-domain URL whose path ends in a denylisted extension is left out.
\<close>

theorem queued_iff_same_host_and_page_path:
  assumes "find_new_links cfg L visited hrefs queue = (None, queue')"
  shows "set queue' = set queue \<union>
           {u. u \<notin> visited \<and>
               (\<exists>href \<in> set hrefs. \<exists>pu pb.
                    full_url_base cfg L href = Inr u
                  \<and> urlparse (bracketed_host_ok L) u [] = Inr pu
                  \<and> urlparse (bracketed_host_ok L) (BASE_URL cfg) [] = Inr pb
                  \<and> netloc pu = netloc pb
                  \<and> \<not> endswith (path pu) non_page_extensions)}"
proof (intro set_eqI iffI)
  fix u
  assume "u \<in> set queue'"
  with find_new_links_appends [OF assms] have "u \<in> set queue
      \<or> (u \<notin> visited \<and> (\<exists>href \<in> set hrefs. full_url_base cfg L href = Inr u
            \<and> is_internal_link cfg L u = Inr True))"
    by auto
  then show "u \<in> set queue \<union>
           {u. u \<notin> visited \<and>
               (\<exists>href \<in> set hrefs. \<exists>pu pb.
                    full_url_base cfg L href = Inr u
                  \<and> urlparse (bracketed_host_ok L) u [] = Inr pu
                  \<and> urlparse (bracketed_host_ok L) (BASE_URL cfg) [] = Inr pb
                  \<and> netloc pu = netloc pb
                  \<and> \<not> endswith (path pu) non_page_extensions)}"
    unfolding is_internal_link_iff by blast
next
  fix u
  assume "u \<in> set queue \<union>
           {u. u \<notin> visited \<and>
               (\<exists>href \<in> set hrefs. \<exists>pu pb.
                    full_url_base cfg L href = Inr u
                  \<and> urlparse (bracketed_host_ok L) u [] = Inr pu
                  \<and> urlparse (bracketed_host_ok L) (BASE_URL cfg) [] = Inr pb
                  \<and> netloc pu = netloc pb
                  \<and> \<not> endswith (path pu) non_page_extensions)}"
  then consider "u \<in> set queue"
    | href where "u \<notin> visited" "href \<in> set hrefs" "full_url_base cfg L href = Inr u"
        "is_internal_link cfg L u = Inr True"
    unfolding is_internal_link_iff by blast
  then show "u \<in> set queue'"
  proof cases
    case 1
    with find_new_links_appends [OF assms] show ?thesis by auto
  next
    case 2
    from find_new_links_complete [OF assms 2(2,3,4,1)] show ?thesis .
  qed
qed

theorem queued_iff_same_host_and_page_path_witness:
  "find_new_links demo_cfg demo_libs {''https://h/''} [''/guide'', ''https://other/guide'', ''/logo.png''] []
     = (None, [''https://h/guide''])
   \<and> full_url_base demo_cfg demo_libs ''https://other/guide'' = Inr ''https://other/guide''
   \<and> is_internal_link demo_cfg demo_libs ''https://other/guide'' \<noteq> Inr True"
proof -
  have run: "find_new_links demo_cfg demo_libs {''https://h/''}
      [''/guide'', ''https://other/guide'', ''/logo.png''] [] = (None, [''https://h/guide''])"
    by code_simp
  have full: "full_url_base demo_cfg demo_libs ''https://other/guide'' = Inr ''https://other/guide''"
    by code_simp
  have "is_internal_link demo_cfg demo_libs ''https://other/guide'' \<noteq> Inr True"
  proof
    assume "is_internal_link demo_cfg demo_libs ''https://other/guide'' = Inr True"
    then obtain pu pb where
      "urlparse (bracketed_host_ok demo_libs) ''https://other/guide'' [] = Inr pu"
      "urlparse (bracketed_host_ok demo_libs) (BASE_URL demo_cfg) [] = Inr pb"
      "netloc pu = netloc pb" "\<not> endswith (path pu) non_page_extensions"
      unfolding is_internal_link_iff by blast
    with full have "''https://other/guide'' \<in> set [] \<union>
           {u. u \<notin> {''https://h/''} \<and>
               (\<exists>href \<in> set [''/guide'', ''https://other/guide'', ''/logo.png'']. \<exists>pu pb.
                    full_url_base demo_cfg demo_libs href = Inr u
                  \<and> urlparse (bracketed_host_ok demo_libs) u [] = Inr pu
                  \<and> urlparse (bracketed_host_ok demo_libs) (BASE_URL demo_cfg) [] = Inr pb
                  \<and> netloc pu = netloc pb
                  \<and> \<not> endswith (path pu) non_page_extensions)}"
      by auto
    with queued_iff_same_host_and_page_path [OF run] have "''https://other/guide'' \<in> set [''https://h/guide'']"
      by blast
    then show False by simp
  qed
  with run full show ?thesis by simp
qed

section \<open>Where relative links are resolved\<close>

lemma process_response_queue:
  "urls_to_visit (process_response cfg L net url text st)
     = snd (find_new_links cfg L (visited_urls st)
              (map (get_attr ''href'') (find_all ''a'' ''href'' (html_parser L text)))
              (urls_to_visit st))"
  by (simp add: process_response_def Let_def split: prod.splits option.splits)

lemma absolute_href_value:
  "absolute_href L url old w1 = (Inr new, w2) \<Longrightarrow> urljoin (bracketed_host_ok L) url old = Inr new"
  by (simp add: absolute_href_def)

text \<open>
  C10: the links that feed the queue are resolved against the root URL, whatever page
  they are on: the queue after a page does not depend on the URL of the page, and every
  URL that the page adds is the cleaned \<open>urljoin(BASE_URL, href)\<close> of one of its links.
  The links inside the content element are resolved against the URL of the page.
\<close>

theorem frontier_links_resolve_against_root:
  assumes "select_content cfg L url soup w = (Inr (Some content_element), w1)"
    and "localized_content cfg L net url soup w = (Inr (Some localized), w')"
  shows "urls_to_visit (process_response cfg L net url text st)
           = urls_to_visit (process_response cfg L net other_url text st)
     \<and> (\<forall>u \<in> set (urls_to_visit (process_response cfg L net url text st)).
            u \<in> set (urls_to_visit st)
          \<or> (\<exists>href \<in> set (map (get_attr ''href'') (find_all ''a'' ''href'' (html_parser L text))).
                \<exists>full_url. urljoin (bracketed_host_ok L) (BASE_URL cfg) href = Inr full_url
                   \<and> base_url_only L full_url = Inr u))
     \<and> list_all2 (\<lambda>href href'. urljoin (bracketed_host_ok L) url href = Inr href')
          (attr_values ''a'' ''href'' (children content_element))
          (attr_values ''a'' ''href'' (children localized))"
proof (intro conjI)
  show "urls_to_visit (process_response cfg L net url text st)
           = urls_to_visit (process_response cfg L net other_url text st)"
    by (simp add: process_response_queue)
next
  let ?hrefs = "map (get_attr ''href'') (find_all ''a'' ''href'' (html_parser L text))"
  obtain err queue' where run: "find_new_links cfg L (visited_urls st) ?hrefs (urls_to_visit st)
      = (err, queue')"
    by (cases "find_new_links cfg L (visited_urls st) ?hrefs (urls_to_visit st)")
  from find_new_links_appends [OF run] obtain new where
    n: "queue' = urls_to_visit st @ new"
    "\<forall>u \<in> set new. \<exists>href \<in> set ?hrefs. full_url_base cfg L href = Inr u" by blast
  have "\<exists>full_url. urljoin (bracketed_host_ok L) (BASE_URL cfg) href = Inr full_url
           \<and> base_url_only L full_url = Inr u"
    if "full_url_base cfg L href = Inr u" for href u
    using that by (simp add: full_url_base_def split: sum.splits)
  with n(2) have "\<forall>u \<in> set new. \<exists>href \<in> set ?hrefs.
      \<exists>full_url. urljoin (bracketed_host_ok L) (BASE_URL cfg) href = Inr full_url
           \<and> base_url_only L full_url = Inr u"
    by blast
  with n(1) run show "\<forall>u \<in> set (urls_to_visit (process_response cfg L net url text st)).
            u \<in> set (urls_to_visit st)
          \<or> (\<exists>href \<in> set ?hrefs.
                \<exists>full_url. urljoin (bracketed_host_ok L) (BASE_URL cfg) href = Inr full_url
                   \<and> base_url_only L full_url = Inr u)"
    by (auto simp: process_response_queue)
next
  from assms(2) show "list_all2 (\<lambda>href href'. urljoin (bracketed_host_ok L) url href = Inr href')
          (attr_values ''a'' ''href'' (children content_element))
          (attr_values ''a'' ''href'' (children localized))"
  proof (cases rule: localized_content_steps)
    case (finished c v1 cs w2 cs')
    with assms(1) have c: "c = content_element" by simp
    have "list_all2 (\<lambda>old new. \<exists>w1 w2. absolute_href L url old w1 = (Inr new, w2))
            (attr_values ''a'' ''href'' (children c)) (attr_values ''a'' ''href'' cs)"
      by (rule for_each_tag_values [OF finished(2)])
    then have links: "list_all2 (\<lambda>href href'. urljoin (bracketed_host_ok L) url href = Inr href')
            (attr_values ''a'' ''href'' (children c)) (attr_values ''a'' ''href'' cs)"
      by (rule list_all2_mono) (auto dest: absolute_href_value)
    have "''a'' \<noteq> ''img''" by simp
    from for_each_tag_other_values [OF finished(3) this, of "''href''"]
    have same: "attr_values ''a'' ''href'' cs' = attr_values ''a'' ''href'' cs" .
    have "attr_values ''a'' ''href'' (children (with_children c cs')) = attr_values ''a'' ''href'' cs'"
    proof (cases c)
      case (Text s)
      with finished(2) have "cs = []" by simp
      with finished(3) have "cs' = []" by simp
      with Text show ?thesis by simp
    next
      case (Tag n attrs ns)
      then show ?thesis by simp
    qed
    with finished(4) same links c show ?thesis by simp
  qed simp_all
qed

theorem frontier_links_resolve_against_root_witness:
  "urls_to_visit (process_response demo_cfg demo_libs demo_net ''https://h/docs/guide'' ''guide'' guide_state)
     = [''https://h/next'']
   \<and> urls_to_visit (process_response demo_cfg demo_libs demo_net ''https://h/'' ''guide'' guide_state)
     = [''https://h/next'']
   \<and> attr_values ''a'' ''href'' (children (Tag ''main'' []
         [Tag ''a'' [(''href'', ''https://h/docs/next'')] [Text ''Next''],
          Tag ''img'' [(''src'', ''images/0cc175b9c0f1b6a831c399e269772661.png'')] []]))
     = [''https://h/docs/next'']
   \<and> urljoin (bracketed_host_ok demo_libs) ''https://h/docs/guide'' ''next'' = Inr ''https://h/docs/next''"
proof -
  let ?main = "Tag ''main'' [] [Tag ''a'' [(''href'', ''next'')] [Text ''Next''],
        Tag ''img'' [(''src'', ''https://site/a.png'')] []]"
  let ?localized = "Tag ''main'' [] [Tag ''a'' [(''href'', ''https://h/docs/next'')] [Text ''Next''],
            Tag ''img'' [(''src'', ''images/0cc175b9c0f1b6a831c399e269772661.png'')] []]"
  let ?sel = "select_content demo_cfg demo_libs ''https://h/docs/guide'' (demo_parser ''guide'') empty_world"
  let ?run = "localized_content demo_cfg demo_libs demo_net ''https://h/docs/guide'' (demo_parser ''guide'') empty_world"
  have "fst ?sel = Inr (Some ?main)" by code_simp
  then have s: "?sel = (Inr (Some ?main), snd ?sel)" by (simp add: prod_eq_iff)
  have "fst ?run = Inr (Some ?localized)" by code_simp
  then have r: "?run = (Inr (Some ?localized), snd ?run)" by (simp add: prod_eq_iff)
  have q: "urls_to_visit (process_response demo_cfg demo_libs demo_net ''https://h/'' ''guide'' guide_state)
     = [''https://h/next'']"
    by code_simp
  note t = frontier_links_resolve_against_root [OF s r, of "''guide''" guide_state "''https://h/''"]
  from t q have a: "urls_to_visit (process_response demo_cfg demo_libs demo_net ''https://h/docs/guide''
      ''guide'' guide_state) = [''https://h/next'']"
    by simp
  from t have "list_all2 (\<lambda>href href'. urljoin (bracketed_host_ok demo_libs) ''https://h/docs/guide'' href = Inr href')
      [''next''] [''https://h/docs/next'']"
    by simp
  then have b: "urljoin (bracketed_host_ok demo_libs) ''https://h/docs/guide'' ''next'' = Inr ''https://h/docs/next''"
    by simp
  from a q b show ?thesis by simp
qed

section \<open>Page fetches\<close>

lemma get_markdown_content_pages:
  "fetched_pages (events (snd (get_markdown_content cfg L net url html w))) = fetched_pages (events w)"
proof -
  have "get_markdown_content cfg L net url html w
      = (fst (get_markdown_content cfg L net url html w), snd (get_markdown_content cfg L net url html w))"
    by simp
  from cache_respected_get_markdown_content [OF this] show ?thesis
    unfolding cache_respected_def by (auto simp: fetched_pages_append)
qed

lemma process_response_pages:
  "fetched_pages (events (env (process_response cfg L net url text st))) = fetched_pages (events (env st))"
proof -
  obtain r w where g: "get_markdown_content cfg L net url text (env st) = (r, w)"
    by (cases "get_markdown_content cfg L net url text (env st)")
  with get_markdown_content_pages [of cfg L net url "text" "env st"]
  have "fetched_pages (events w) = fetched_pages (events (env st))" by simp
  with g show ?thesis
    by (simp add: process_response_def Let_def events_emit fetched_pages_append
        split: prod.splits option.splits)
qed

lemma process_response_visited:
  "visited_urls (process_response cfg L net url text st) = visited_urls st"
  by (simp add: process_response_def Let_def split: prod.splits option.splits)

lemma visit_fetched_once:
  assumes "fetched_once L st"
  shows "fetched_once L (visit cfg L net url st)"
proof (cases "base_url_only L url")
  case (Inl e)
  with assms show ?thesis by (simp add: visit_def fetched_once_def)
next
  case (Inr b)
  show ?thesis
  proof (cases "b \<in> visited_urls st")
    case True
    with Inr assms show ?thesis by (simp add: visit_def)
  next
    case False
    let ?st1 = "st\<lparr>visited_urls := insert b (visited_urls st),
                   env := emit (Get_page url) (emit (Processing_link b) (env st))\<rparr>"
    have new: "url \<notin> set (fetched_pages (events (env st)))"
    proof
      assume "url \<in> set (fetched_pages (events (env st)))"
      with assms obtain b' where "base_url_only L url = Inr b'" "b' \<in> visited_urls st"
        unfolding fetched_once_def by blast
      with Inr False show False by simp
    qed
    have pages: "fetched_pages (events (env ?st1)) = fetched_pages (events (env st)) @ [url]"
      by (simp add: events_emit fetched_pages_append)
    have st1: "fetched_once L ?st1"
      unfolding fetched_once_def
    proof (intro conjI ballI)
      from assms new pages show "distinct (fetched_pages (events (env ?st1)))"
        by (simp add: fetched_once_def)
    next
      fix u
      assume "u \<in> set (fetched_pages (events (env ?st1)))"
      with pages have "u \<in> set (fetched_pages (events (env st))) \<or> u = url" by auto
      then show "\<exists>b. base_url_only L u = Inr b \<and> b \<in> visited_urls ?st1"
      proof
        assume "u \<in> set (fetched_pages (events (env st)))"
        with assms obtain b' where "base_url_only L u = Inr b'" "b' \<in> visited_urls st"
          unfolding fetched_once_def by blast
        then show ?thesis by auto
      next
        assume "u = url"
        with Inr show ?thesis by simp
      qed
    qed
    have err: "fetched_once L (?st1\<lparr>env := emit (Error_fetching b) (env ?st1)\<rparr>)"
      using st1 by (simp add: fetched_once_def events_emit fetched_pages_append)
    have ok: "fetched_once L (process_response cfg L net b page_text ?st1)" for page_text
      using st1 unfolding fetched_once_def
      by (simp only: process_response_pages process_response_visited) simp
    show ?thesis
    proof (cases "page_get net (events (emit (Processing_link b) (env st))) url")
      case Page_raises
      with Inr False err show ?thesis by (simp add: visit_def Let_def)
    next
      case (Page_response status_code page_text)
      with Inr False err ok [of page_text] show ?thesis by (simp add: visit_def Let_def)
    qed
  qed
qed

lemma loop_body_fetched_once:
  assumes "fetched_once L st"
  shows "fetched_once L (loop_body cfg L net st)"
proof (cases "urls_to_visit st")
  case Nil
  with assms show ?thesis by (simp add: loop_body_def)
next
  case (Cons url rest)
  from assms have "fetched_once L (st\<lparr>urls_to_visit := rest\<rparr>)" by (simp add: fetched_once_def)
  from visit_fetched_once [OF this] Cons show ?thesis by (simp add: loop_body_def)
qed

lemma crawl_loop_fetched_once:
  "fetched_once L st \<Longrightarrow> fetched_once L (crawl_loop cfg L net n st)"
  by (induction n arbitrary: st) (simp_all add: loop_body_fetched_once)

lemma initial_fetched_once:
  "fetched_pages (events w) = [] \<Longrightarrow> fetched_once L (initial cfg w)"
  by (simp add: fetched_once_def initial_def events_emit fetched_pages_append os_makedirs_def)

text \<open>
  C5, as stated: every response that is not 2xx takes the logged-and-skipped path.
  \<open>raise_for_status\<close> raises for 4xx and 5xx only: a response with status 300 and a
  body is processed like a page, and no error is logged.
\<close>

theorem multiple_choices_response_is_processed:
  "\<not> (200 \<le> (300::nat) \<and> (300::nat) < 300)
   \<and> \<not> raise_for_status 300
   \<and> toc_entries (crawl_loop demo_cfg demo_libs
         (serve (\<lambda>url. Page_response 300 ''plain'') (\<lambda>url. Image_raises)) 1
         (initial demo_cfg empty_world)) = [''index'']
   \<and> events (env (crawl_loop demo_cfg demo_libs
         (serve (\<lambda>url. Page_response 300 ''plain'') (\<lambda>url. Image_raises)) 1
         (initial demo_cfg empty_world)))
       = [Starting_crawl, Processing_link ''https://h/'', Get_page ''https://h/'',
          Selector_warning ''https://h/'', Sleep]"
  by code_simp

text \<open>
  C5, amended: when the fetch of the popped URL raises a \<open>RequestException\<close>, or is
  answered with a status from 400 to 599, the turn of the loop marks the cleaned URL
  visited, logs the error and changes nothing else: no page is added, the rest of the
  queue is kept and the loop goes on. No URL is fetched twice in a run, since a URL is
  marked visited before it is fetched.
\<close>

theorem failed_fetch_is_skipped_and_never_retried:
  assumes "fetched_pages (events w) = []"
    and "urls_to_visit st = url # rest"
    and "base_url_only L url = Inr b" and "b \<notin> visited_urls st"
    and "page_get net (events (emit (Processing_link b) (env st))) url = Page_raises
       \<or> (\<exists>status_code page_text.
             page_get net (events (emit (Processing_link b) (env st))) url
               = Page_response status_code page_text
           \<and> 400 \<le> status_code \<and> status_code < 600)"
  shows "loop_body cfg L net st
           = st\<lparr>urls_to_visit := rest, visited_urls := insert b (visited_urls st),
                env := emit (Error_fetching b)
                         (emit (Get_page url) (emit (Processing_link b) (env st)))\<rparr>
       \<and> distinct (fetched_pages (events (env (crawl_loop cfg L net n (initial cfg w)))))"
proof
  from assms(5) show "loop_body cfg L net st
           = st\<lparr>urls_to_visit := rest, visited_urls := insert b (visited_urls st),
                env := emit (Error_fetching b)
                         (emit (Get_page url) (emit (Processing_link b) (env st)))\<rparr>"
  proof
    assume "page_get net (events (emit (Processing_link b) (env st))) url = Page_raises"
    with assms(2,3,4) show ?thesis by (simp add: loop_body_def visit_def Let_def)
  next
    assume "\<exists>status_code page_text.
             page_get net (events (emit (Processing_link b) (env st))) url
               = Page_response status_code page_text
           \<and> 400 \<le> status_code \<and> status_code < 600"
    then obtain status_code page_text where
      "page_get net (events (emit (Processing_link b) (env st))) url = Page_response status_code page_text"
      "raise_for_status status_code"
      by (auto simp: raise_for_status_def)
    with assms(2,3,4) show ?thesis by (simp add: loop_body_def visit_def Let_def)
  qed
next
  from crawl_loop_fetched_once [OF initial_fetched_once [OF assms(1)]]
  show "distinct (fetched_pages (events (env (crawl_loop cfg L net n (initial cfg w)))))"
    by (simp add: fetched_once_def)
qed

theorem failed_fetch_is_skipped_and_never_retried_witness:
  "urls_to_visit (loop_body demo_cfg demo_libs (serve (\<lambda>url. Page_response 404 ''gone'') (\<lambda>url. Image_raises))
       (initial demo_cfg empty_world)) = []
   \<and> all_markdown_content (loop_body demo_cfg demo_libs
       (serve (\<lambda>url. Page_response 404 ''gone'') (\<lambda>url. Image_raises)) (initial demo_cfg empty_world)) = []
   \<and> uncaught (loop_body demo_cfg demo_libs
       (serve (\<lambda>url. Page_response 404 ''gone'') (\<lambda>url. Image_raises)) (initial demo_cfg empty_world)) = None
   \<and> ''https://h/'' \<in> visited_urls (loop_body demo_cfg demo_libs
       (serve (\<lambda>url. Page_response 404 ''gone'') (\<lambda>url. Image_raises)) (initial demo_cfg empty_world))
   \<and> distinct (fetched_pages (events (env (crawl_loop demo_cfg demo_libs
       (serve (\<lambda>url. Page_response 404 ''gone'') (\<lambda>url. Image_raises)) 3 (initial demo_cfg empty_world)))))"
proof -
  let ?net = "serve (\<lambda>url. Page_response 404 ''gone'') (\<lambda>url. Image_raises)"
  have 1: "fetched_pages (events empty_world) = []" by (simp add: empty_world_def)
  have 2: "urls_to_visit (initial demo_cfg empty_world) = ''https://h/'' # []"
    by (simp add: initial_def demo_cfg_def)
  have 3: "base_url_only demo_libs ''https://h/'' = Inr ''https://h/''" by code_simp
  have 4: "''https://h/'' \<notin> visited_urls (initial demo_cfg empty_world)"
    by (simp add: initial_def)
  have 5: "page_get ?net (events (emit (Processing_link ''https://h/'') (env (initial demo_cfg empty_world))))
               ''https://h/'' = Page_raises
       \<or> (\<exists>status_code page_text.
             page_get ?net (events (emit (Processing_link ''https://h/'') (env (initial demo_cfg empty_world))))
               ''https://h/'' = Page_response status_code page_text
           \<and> 400 \<le> status_code \<and> status_code < 600)"
    by (simp add: serve_def)
  have 6: "all_markdown_content (initial demo_cfg empty_world) = []"
    "uncaught (initial demo_cfg empty_world) = None"
    by (simp_all add: initial_def)
  from failed_fetch_is_skipped_and_never_retried [OF 1 2 3 4 5, of demo_cfg 3] 6
  show ?thesis by simp
qed

section \<open>The cached files\<close>











section \<open>Fragments and the visited set\<close>

lemma visit_skips_visited:
  "base_url_only L url = Inr b \<Longrightarrow> b \<in> visited_urls st \<Longrightarrow> visit cfg L net url st = st"
  by (simp add: visit_def)

lemma visit_visited_grows: "visited_urls st \<subseteq> visited_urls (visit cfg L net url st)"
proof (cases "base_url_only L url")
  case (Inl e)
  then show ?thesis by (simp add: visit_def)
next
  case (Inr b)
  show ?thesis
  proof (cases "page_get net (events (emit (Processing_link b) (env st))) url")
    case Page_raises
    with Inr show ?thesis by (auto simp: visit_def Let_def)
  next
    case (Page_response status_code page_text)
    with Inr show ?thesis by (auto simp: visit_def Let_def process_response_visited)
  qed
qed

text \<open>
  C1: URLs that differ only by their fragment are one page, which the crawl processes
  at most once. The visited set does only grow and a popped URL whose cleaned form is
  in it is skipped, but the cleaning of line 162 leaves a URL with an empty path as it
  is, fragment included: on the site \<open>https://h/\<close>, whose root page links to
  \<open>https://h#a\<close> and \<open>https://h#b\<close>, both links are queued, both are fetched and
  both give a page, and the visited set holds both URLs with their fragments.
\<close>

theorem fragment_variants_are_both_fetched:
  "base_url_only demo_libs ''https://h#a'' = Inr ''https://h#a''
   \<and> base_url_only demo_libs ''https://h#b'' = Inr ''https://h#b''
   \<and> fetched_pages (events (env (crawl_loop demo_cfg demo_libs demo_net 3 (initial demo_cfg empty_world))))
       = [''https://h/'', ''https://h#a'', ''https://h#b'']
   \<and> toc_entries (crawl_loop demo_cfg demo_libs demo_net 3 (initial demo_cfg empty_world))
       = [''index'', ''index'', ''index'']
   \<and> urls_to_visit (crawl_loop demo_cfg demo_libs demo_net 3 (initial demo_cfg empty_world)) = []
   \<and> ''https://h#a'' \<in> visited_urls (crawl_loop demo_cfg demo_libs demo_net 3 (initial demo_cfg empty_world))
   \<and> ''https://h#b'' \<in> visited_urls (crawl_loop demo_cfg demo_libs demo_net 3 (initial demo_cfg empty_world))"
  by code_simp

end
